theory Spec2Isabelle
  imports Main
begin

section \<open>Page reconstruction from a document analysis result\<close>

text \<open>
  A shallow embedding of \<^verbatim>\<open>AzureDocumentIntelligenceClient\<close> in
  \<^verbatim>\<open>azure_document_intelligence_helper.py\<close>: the rendering of a table as HTML
  (\<^verbatim>\<open>_table_to_html\<close>) and the reconstruction of the page map
  (\<^verbatim>\<open>begin_analyze_document_from_url\<close>).

  Python integers are \<open>int\<close>; the counters of \<^verbatim>\<open>enumerate\<close> and \<^verbatim>\<open>range\<close> are
  \<open>nat\<close>. A Python \<^verbatim>\<open>str\<close> is a \<open>string\<close>, one \<open>char\<close> standing for one character
  of the Python string. An attribute that the code tests against \<^verbatim>\<open>None\<close> is an
  \<open>option\<close>. A raised exception is the \<open>Inl\<close> of a sum.
\<close>

subsection \<open>Exceptions\<close>

text \<open>
  What a call can raise. \<open>IndexError\<close> and \<open>ValueError\<close> are raised by this module,
  \<open>ServiceError\<close> stands for an error of the service client; all three are of the class
  \<^verbatim>\<open>Exception\<close>. \<open>KeyboardInterrupt\<close> and \<open>SystemExit\<close> can reach the call while it
  waits for the service; they derive from \<^verbatim>\<open>BaseException\<close> only.
\<close>

datatype exn =
    IndexError string
  | ServiceError string
  | ValueError string exn
  | KeyboardInterrupt
  | SystemExit

text \<open>\<^verbatim>\<open>isinstance(e, Exception)\<close>: what the clause \<^verbatim>\<open>except Exception\<close> catches.\<close>

fun is_exception :: "exn \<Rightarrow> bool" where
  "is_exception (IndexError m) = True"
| "is_exception (ServiceError m) = True"
| "is_exception (ValueError m c) = True"
| "is_exception KeyboardInterrupt = False"
| "is_exception SystemExit = False"

text \<open>\<^verbatim>\<open>str(e)\<close>: the message of the exception.\<close>

fun exn_str :: "exn \<Rightarrow> string" where
  "exn_str (IndexError m) = m"
| "exn_str (ServiceError m) = m"
| "exn_str (ValueError m c) = m"
| "exn_str KeyboardInterrupt = []"
| "exn_str SystemExit = []"

text \<open>
  Subscripting a Python sequence, \<^verbatim>\<open>xs[i]\<close>. For \<open>i\<close> from \<open>- len(xs)\<close> to \<open>- 1\<close>
  the element at \<open>len(xs) + i\<close> is read; outside \<open>- len(xs) .. len(xs) - 1\<close> the
  subscript raises \<^verbatim>\<open>IndexError\<close>, whose message names the type of the sequence.
\<close>

definition py_index :: "string \<Rightarrow> 'a list \<Rightarrow> int \<Rightarrow> exn + 'a" where
  "py_index msg xs i =
     (if 0 \<le> i \<and> i < int (length xs) then Inr (xs ! nat i)
      else if - int (length xs) \<le> i \<and> i < 0 then Inr (xs ! nat (int (length xs) + i))
      else Inl (IndexError msg))"

definition list_index :: "'a list \<Rightarrow> int \<Rightarrow> exn + 'a" where
  "list_index = py_index ''list index out of range''"

definition str_index :: "string \<Rightarrow> int \<Rightarrow> exn + char" where
  "str_index = py_index ''string index out of range''"

subsection \<open>The analysis result\<close>

record span =
  span_offset :: int
  span_length :: int

record bounding_region =
  region_page_number :: int

record cell =
  row_index :: int
  column_index :: int
  kind :: "string option"
  column_span :: "int option"
  row_span :: "int option"
  cell_content :: string

record table =
  row_count :: int
  cells :: "cell list"
  bounding_regions :: "bounding_region list"
  table_spans :: "span list"

record para =
  role :: "string option"
  paragraph_spans :: "span list"

record page =
  page_spans :: "span list"

record analysis_result =
  content :: string
  pages :: "page list"
  tables :: "table list option"
  paragraphs :: "para list option"

record page_record =
  page_number :: nat
  offset :: int
  page_text :: string

subsection \<open>Formatting\<close>

text \<open>\<^verbatim>\<open>str\<close> of an integer, as an f-string formats it: decimal digits, a leading minus.\<close>

definition digit_char :: "nat \<Rightarrow> char" where
  "digit_char d = ''0123456789'' ! d"

fun str_nat :: "nat \<Rightarrow> string" where
  "str_nat n = (if n < 10 then [digit_char n] else str_nat (n div 10) @ [digit_char (n mod 10)])"

declare str_nat.simps [simp del]

definition str_int :: "int \<Rightarrow> string" where
  "str_int i = (if i < 0 then CHR ''-'' # str_nat (nat (- i)) else str_nat (nat i))"

text \<open>\<^verbatim>\<open>s.replace(c, rep)\<close> for a single character \<open>c\<close>.\<close>

definition replace_char :: "char \<Rightarrow> string \<Rightarrow> string \<Rightarrow> string" where
  "replace_char c rep s = concat (map (\<lambda>x. if x = c then rep else [x]) s)"

text \<open>
  \<^verbatim>\<open>html.escape(s)\<close> of the Python standard library, with its default \<^verbatim>\<open>quote=True\<close>:
  five replacements in this order, the ampersand first.
\<close>

definition html_escape :: "string \<Rightarrow> string" where
  "html_escape s =
     replace_char (CHR 0x27) ''&#x27;''
       (replace_char (CHR 0x22) ''&quot;''
         (replace_char CHR ''>'' ''&gt;''
           (replace_char CHR ''<'' ''&lt;''
             (replace_char CHR ''&'' ''&amp;'' s))))"

subsection \<open>The role table\<close>

definition form_recognizer_role_to_html :: "(string \<times> string option) list" where
  "form_recognizer_role_to_html =
     [(''title'', Some ''h1''),
      (''sectionHeading'', Some ''h2''),
      (''pageHeader'', None),
      (''pageFooter'', None),
      (''paragraph'', Some ''p'')]"

text \<open>\<^verbatim>\<open>form_recognizer_role_to_html.get(role)\<close>: \<^verbatim>\<open>None\<close> for a key that is absent.\<close>

definition role_get :: "string \<Rightarrow> string option" where
  "role_get r = (case map_of form_recognizer_role_to_html r of None \<Rightarrow> None | Some v \<Rightarrow> v)"

subsection \<open>Rendering a table\<close>

text \<open>The body of the inner loop of \<^verbatim>\<open>_table_to_html\<close>: one cell appended.\<close>

definition cell_tag :: "cell \<Rightarrow> string" where
  "cell_tag c = (if kind c = Some ''columnHeader'' then ''th'' else ''td'')"

definition cell_spans :: "cell \<Rightarrow> string" where
  \<open>cell_spans c =
     (let s0 = '''';
          s1 = (case column_span c of
                  None \<Rightarrow> s0
                | Some n \<Rightarrow> if n > 1 then s0 @ '' colspan="'' @ str_int n @ ''"'' else s0);
          s2 = (case row_span c of
                  None \<Rightarrow> s1
                | Some n \<Rightarrow> if n > 1 then s1 @ '' rowspan="'' @ str_int n @ ''"'' else s1)
      in s2)\<close>

definition add_cell :: "string \<Rightarrow> cell \<Rightarrow> string" where
  "add_cell table_html c =
     table_html @ ''<'' @ cell_tag c @ cell_spans c @ ''>''
       @ html_escape (cell_content c) @ ''</'' @ cell_tag c @ ''>''"

fun add_cells :: "string \<Rightarrow> cell list \<Rightarrow> string" where
  "add_cells table_html [] = table_html"
| "add_cells table_html (c # cs) = add_cells (add_cell table_html c) cs"

text \<open>The outer loop: one row appended.\<close>

fun add_rows :: "string \<Rightarrow> cell list list \<Rightarrow> string" where
  "add_rows table_html [] = table_html"
| "add_rows table_html (row_cells # rows) =
     add_rows (add_cells (table_html @ ''<tr>'') row_cells @ ''</tr>'') rows"

text \<open>
  The list comprehension of the rows: for each \<open>i\<close> of \<^verbatim>\<open>range(table.row_count)\<close> the
  cells of row \<open>i\<close>, sorted by column index. Python's \<^verbatim>\<open>sorted\<close> is stable, as
  \<open>sort_key\<close> is.
\<close>

definition table_rows :: "table \<Rightarrow> cell list list" where
  "table_rows t =
     map (\<lambda>i. sort_key column_index (filter (\<lambda>c. row_index c = int i) (cells t)))
       [0..<nat (row_count t)]"

definition table_to_html :: "table \<Rightarrow> string" where
  "table_to_html t = add_rows ''<table>'' (table_rows t) @ ''</table>''"

subsection \<open>Role boundaries\<close>

type_synonym roles = "int \<rightharpoonup> string"

definition role_or_default :: "para \<Rightarrow> string" where
  "role_or_default p = (case role p of None \<Rightarrow> ''paragraph'' | Some r \<Rightarrow> r)"

text \<open>
  The boundaries of a paragraph are those of its first span; \<^verbatim>\<open>paragraph.spans[0]\<close>
  raises on a paragraph without spans.
\<close>

definition para_start :: "para \<Rightarrow> exn + int" where
  "para_start p =
     (case list_index (paragraph_spans p) 0 of
        Inl e \<Rightarrow> Inl e
      | Inr s \<Rightarrow> Inr (span_offset s))"

definition para_end :: "para \<Rightarrow> exn + int" where
  "para_end p =
     (case list_index (paragraph_spans p) 0 of
        Inl e \<Rightarrow> Inl e
      | Inr s0 \<Rightarrow>
          (case list_index (paragraph_spans p) 0 of
             Inl e \<Rightarrow> Inl e
           | Inr s1 \<Rightarrow> Inr (span_offset s0 + span_length s1)))"

text \<open>The loop over the paragraphs: both dictionaries are assigned, a later paragraph
  overwriting the entry of an earlier one at the same key.\<close>

fun index_roles :: "para list \<Rightarrow> roles \<Rightarrow> roles \<Rightarrow> exn + (roles \<times> roles)" where
  "index_roles [] roles_start roles_end = Inr (roles_start, roles_end)"
| "index_roles (p # ps) roles_start roles_end =
     (case para_start p of
        Inl e \<Rightarrow> Inl e
      | Inr start \<Rightarrow>
          (case para_end p of
             Inl e \<Rightarrow> Inl e
           | Inr end \<Rightarrow>
               index_roles ps
                 (roles_start(start \<mapsto> role_or_default p))
                 (roles_end(end \<mapsto> role_or_default p))))"

text \<open>An absent or empty \<^verbatim>\<open>paragraphs\<close> leaves both dictionaries empty.\<close>

definition mark_roles :: "analysis_result \<Rightarrow> exn + (roles \<times> roles)" where
  "mark_roles r =
     (case paragraphs r of
        None \<Rightarrow> Inr (Map.empty, Map.empty)
      | Some ps \<Rightarrow> index_roles ps Map.empty Map.empty)"

subsection \<open>Tables of a page\<close>

text \<open>
  \<^verbatim>\<open>table.bounding_regions[0].page_number\<close>: the page of the first bounding region;
  the subscript raises on a table without bounding regions.
\<close>

definition first_region_page :: "table \<Rightarrow> exn + int" where
  "first_region_page t =
     (case list_index (bounding_regions t) 0 of
        Inl e \<Rightarrow> Inl e
      | Inr b \<Rightarrow> Inr (region_page_number b))"

text \<open>
  The list comprehension that selects the tables of a page; its condition is evaluated
  for every table of the document, in order.
\<close>

fun select_tables :: "table list \<Rightarrow> nat \<Rightarrow> exn + table list" where
  "select_tables [] page_num = Inr []"
| "select_tables (t # ts) page_num =
     (case first_region_page t of
        Inl e \<Rightarrow> Inl e
      | Inr n \<Rightarrow>
          (case select_tables ts page_num of
             Inl e \<Rightarrow> Inl e
           | Inr rest \<Rightarrow> Inr (if n = int page_num + 1 then t # rest else rest)))"

definition tables_on_page :: "analysis_result \<Rightarrow> nat \<Rightarrow> exn + table list" where
  "tables_on_page r page_num =
     (case tables r of
        None \<Rightarrow> Inr []
      | Some ts \<Rightarrow> select_tables ts page_num)"

text \<open>
  Marking the characters of the page that a table span covers. The three nested loops,
  innermost first; an index outside the page is skipped.
\<close>

definition mark_char :: "int \<Rightarrow> int \<Rightarrow> int \<Rightarrow> span \<Rightarrow> nat \<Rightarrow> int list \<Rightarrow> int list" where
  "mark_char page_offset page_length table_id s i table_chars =
     (let idx = span_offset s - page_offset + int i
      in if idx \<ge> 0 \<and> idx < page_length then table_chars[nat idx := table_id] else table_chars)"

definition mark_span :: "int \<Rightarrow> int \<Rightarrow> int \<Rightarrow> span \<Rightarrow> int list \<Rightarrow> int list" where
  "mark_span page_offset page_length table_id s table_chars =
     fold (mark_char page_offset page_length table_id s) [0..<nat (span_length s)] table_chars"

definition mark_table :: "int \<Rightarrow> int \<Rightarrow> nat \<times> table \<Rightarrow> int list \<Rightarrow> int list" where
  "mark_table page_offset page_length it table_chars =
     fold (mark_span page_offset page_length (int (fst it))) (table_spans (snd it)) table_chars"

definition mark_tables :: "int \<Rightarrow> int \<Rightarrow> table list \<Rightarrow> int list" where
  "mark_tables page_offset page_length tops =
     fold (mark_table page_offset page_length) (enumerate 0 tops)
       (replicate (nat page_length) (- 1))"

subsection \<open>Building the text of a page\<close>

text \<open>The tag that a role boundary appends, if its role has one.\<close>

definition open_tag :: "roles \<Rightarrow> int \<Rightarrow> string" where
  "open_tag roles_start position =
     (case roles_start position of
        None \<Rightarrow> ''''
      | Some r \<Rightarrow> (case role_get r of None \<Rightarrow> '''' | Some html_role \<Rightarrow> ''<'' @ html_role @ ''>''))"

definition close_tag :: "roles \<Rightarrow> int \<Rightarrow> string" where
  "close_tag roles_end position =
     (case roles_end position of
        None \<Rightarrow> ''''
      | Some r \<Rightarrow> (case role_get r of None \<Rightarrow> '''' | Some html_role \<Rightarrow> ''</'' @ html_role @ ''>''))"

text \<open>
  The loop over \<^verbatim>\<open>enumerate(table_chars)\<close>, with the text built so far and the set of
  the tables already added.
\<close>

fun scan_chars ::
  "string \<Rightarrow> roles \<Rightarrow> roles \<Rightarrow> table list \<Rightarrow> int \<Rightarrow> (nat \<times> int) list \<Rightarrow> string \<Rightarrow> int set
     \<Rightarrow> exn + (string \<times> int set)" where
  "scan_chars doc roles_start roles_end tops page_offset [] text added = Inr (text, added)"
| "scan_chars doc roles_start roles_end tops page_offset ((idx, table_id) # rest) text added =
     (if table_id = - 1 then
        (let position = page_offset + int idx;
             text1 = text @ open_tag roles_start position;
             text2 = text1 @ close_tag roles_end position
         in case str_index doc (page_offset + int idx) of
              Inl e \<Rightarrow> Inl e
            | Inr c \<Rightarrow> scan_chars doc roles_start roles_end tops page_offset rest (text2 @ [c]) added)
      else if table_id \<notin> added then
        (case list_index tops table_id of
           Inl e \<Rightarrow> Inl e
         | Inr t \<Rightarrow>
             scan_chars doc roles_start roles_end tops page_offset rest
               (text @ table_to_html t) (insert table_id added))
      else scan_chars doc roles_start roles_end tops page_offset rest text added)"

text \<open>The body of the loop over the pages, up to the text of the page.\<close>

definition build_page_text :: "analysis_result \<Rightarrow> roles \<Rightarrow> roles \<Rightarrow> nat \<Rightarrow> page \<Rightarrow> exn + string" where
  "build_page_text r roles_start roles_end page_num pg =
     (case tables_on_page r page_num of
        Inl e \<Rightarrow> Inl e
      | Inr tops \<Rightarrow>
          (case list_index (page_spans pg) 0 of
             Inl e \<Rightarrow> Inl e
           | Inr s \<Rightarrow>
               (let page_offset = span_offset s;
                    page_length = span_length s;
                    table_chars = mark_tables page_offset page_length tops
                in case scan_chars (content r) roles_start roles_end tops page_offset
                          (enumerate 0 table_chars) '''' {} of
                     Inl e \<Rightarrow> Inl e
                   | Inr (text, added) \<Rightarrow> Inr (text @ '' ''))))"

text \<open>The loop over \<^verbatim>\<open>enumerate(pages)\<close>, with the page map and the running offset.\<close>

fun build_pages ::
  "analysis_result \<Rightarrow> roles \<Rightarrow> roles \<Rightarrow> (nat \<times> page) list \<Rightarrow> page_record list \<Rightarrow> int
     \<Rightarrow> exn + page_record list" where
  "build_pages r roles_start roles_end [] page_map off = Inr page_map"
| "build_pages r roles_start roles_end ((page_num, pg) # rest) page_map off =
     (case build_page_text r roles_start roles_end page_num pg of
        Inl e \<Rightarrow> Inl e
      | Inr text \<Rightarrow>
          build_pages r roles_start roles_end rest
            (page_map @ [\<lparr>page_number = page_num, offset = off, page_text = text\<rparr>])
            (off + int (length text)))"

text \<open>Everything inside the \<^verbatim>\<open>try\<close> after the result of the service has arrived.\<close>

definition reconstruct :: "analysis_result \<Rightarrow> exn + page_record list" where
  "reconstruct r =
     (case mark_roles r of
        Inl e \<Rightarrow> Inl e
      | Inr (roles_start, roles_end) \<Rightarrow>
          build_pages r roles_start roles_end (enumerate 0 (pages r)) [] 0)"

subsection \<open>The whole call\<close>

text \<open>
  The service client and the traceback formatter are outside this module; they are
  parameters. \<open>client model_id source_url\<close> is the submission and the wait for its
  result, \<open>format_exc e\<close> the text of \<^verbatim>\<open>traceback.format_exc()\<close> while \<open>e\<close> is handled.
\<close>

definition model_id :: "bool \<Rightarrow> string" where
  "model_id use_layout = (if use_layout then ''prebuilt-layout'' else ''prebuilt-read'')"

definition wrap_error :: "(exn \<Rightarrow> string) \<Rightarrow> exn \<Rightarrow> exn" where
  "wrap_error format_exc e =
     ValueError (''Error: '' @ format_exc e @ ''. Error: '' @ exn_str e) e"

text \<open>
  The handler \<^verbatim>\<open>except Exception as e\<close>: an exception of the class \<^verbatim>\<open>Exception\<close> is
  replaced by the wrapped error, raised from it; any other leaves the call as it is.
\<close>

definition except_exception :: "(exn \<Rightarrow> string) \<Rightarrow> exn \<Rightarrow> exn" where
  "except_exception format_exc e = (if is_exception e then wrap_error format_exc e else e)"

definition begin_analyze_document_from_url ::
  "(string \<Rightarrow> string \<Rightarrow> exn + analysis_result) \<Rightarrow> (exn \<Rightarrow> string) \<Rightarrow> string \<Rightarrow> bool
     \<Rightarrow> exn + page_record list" where
  "begin_analyze_document_from_url client format_exc source_url use_layout =
     (case client (model_id use_layout) source_url of
        Inl e \<Rightarrow> Inl (except_exception format_exc e)
      | Inr document_intelligence_results \<Rightarrow>
          (case reconstruct document_intelligence_results of
             Inl e \<Rightarrow> Inl (except_exception format_exc e)
           | Inr page_map \<Rightarrow> Inr page_map))"

subsection \<open>The rendering of a table as the specification words it\<close>

text \<open>
  The specification of \<^verbatim>\<open>_table_to_html\<close>, written down as it reads: the opening
  tag of the table; for each row index from 0 below the row count an opening row tag,
  the cells of that row in the order of their column index, a closing row tag; the
  closing tag of the table. A cell is a \<open>th\<close> element if its kind is \<open>columnHeader\<close> and
  a \<open>td\<close> element otherwise, with a \<open>colspan\<close> attribute when its column span exceeds 1,
  a \<open>rowspan\<close> attribute when its row span exceeds 1, and its content escaped.
\<close>

definition colspan_attr_spec :: "cell \<Rightarrow> string" where
  \<open>colspan_attr_spec c =
     (case column_span c of
        Some n \<Rightarrow> if 1 < n then '' colspan="'' @ str_int n @ ''"'' else []
      | None \<Rightarrow> [])\<close>

definition rowspan_attr_spec :: "cell \<Rightarrow> string" where
  \<open>rowspan_attr_spec c =
     (case row_span c of
        Some n \<Rightarrow> if 1 < n then '' rowspan="'' @ str_int n @ ''"'' else []
      | None \<Rightarrow> [])\<close>

definition cell_html_spec :: "cell \<Rightarrow> string" where
  "cell_html_spec c =
     (if kind c = Some ''columnHeader''
      then ''<th'' @ colspan_attr_spec c @ rowspan_attr_spec c @ ''>''
             @ html_escape (cell_content c) @ ''</th>''
      else ''<td'' @ colspan_attr_spec c @ rowspan_attr_spec c @ ''>''
             @ html_escape (cell_content c) @ ''</td>'')"

definition row_html_spec :: "table \<Rightarrow> nat \<Rightarrow> string" where
  "row_html_spec t i =
     ''<tr>''
       @ concat (map cell_html_spec
           (sort_key column_index (filter (\<lambda>c. row_index c = int i) (cells t))))
       @ ''</tr>''"

definition table_to_html_spec :: "table \<Rightarrow> string" where
  "table_to_html_spec t =
     ''<table>'' @ concat (map (row_html_spec t) [0..<nat (row_count t)]) @ ''</table>''"

subsection \<open>Auxiliary notions for the proofs\<close>

text \<open>
  A page map whose offsets are chained from \<open>off\<close>: each record starts where the text
  of the one before it ends.
\<close>

fun chained :: "int \<Rightarrow> page_record list \<Rightarrow> bool" where
  "chained off [] = True"
| "chained off (p # ps) = (offset p = off \<and> chained (off + int (length (page_text p))) ps)"

fun total_length :: "page_record list \<Rightarrow> int" where
  "total_length [] = 0"
| "total_length (p # ps) = int (length (page_text p)) + total_length ps"

subsection \<open>Example documents\<close>

definition mk_span :: "int \<Rightarrow> int \<Rightarrow> span" where
  "mk_span off len = \<lparr>span_offset = off, span_length = len\<rparr>"

definition mk_page :: "int \<Rightarrow> int \<Rightarrow> page" where
  "mk_page off len = \<lparr>page_spans = [mk_span off len]\<rparr>"

definition mk_cell :: "int \<Rightarrow> int \<Rightarrow> string \<Rightarrow> string \<Rightarrow> cell" where
  "mk_cell i j k s =
     \<lparr>row_index = i, column_index = j, kind = Some k, column_span = Some 1, row_span = Some 1,
      cell_content = s\<rparr>"

definition mk_para :: "string option \<Rightarrow> int \<Rightarrow> int \<Rightarrow> para" where
  "mk_para r off len = \<lparr>role = r, paragraph_spans = [mk_span off len]\<rparr>"

text \<open>A table of two rows and two columns, the first row of column headers.\<close>

definition abcd_cells :: "cell list" where
  "abcd_cells =
     [mk_cell 0 0 ''columnHeader'' ''A'', mk_cell 0 1 ''columnHeader'' ''B'',
      mk_cell 1 0 ''content'' ''C'', mk_cell 1 1 ''content'' ''D'']"

definition abcd_html :: string where
  "abcd_html = ''<table><tr><th>A</th><th>B</th></tr><tr><td>C</td><td>D</td></tr></table>''"

text \<open>
  Two pages: \<open>Hello World\<close> at the offsets 0 to 10, and a second page at the offsets
  12 to 18 that one table covers.
\<close>

definition hello_table :: table where
  "hello_table =
     \<lparr>row_count = 2, cells = abcd_cells,
      bounding_regions = [\<lparr>region_page_number = 2\<rparr>],
      table_spans = [mk_span 12 7]\<rparr>"

definition hello_result :: analysis_result where
  "hello_result =
     \<lparr>content = ''Hello World A B C D'',
      pages = [mk_page 0 11, mk_page 12 7],
      tables = Some [hello_table],
      paragraphs = None\<rparr>"

definition hello_page_map :: "page_record list" where
  "hello_page_map =
     [\<lparr>page_number = 0, offset = 0, page_text = ''Hello World ''\<rparr>,
      \<lparr>page_number = 1, offset = 12, page_text = abcd_html @ '' ''\<rparr>]"

definition two_titles :: analysis_result where
  "two_titles =
     \<lparr>content = ''Heading text'',
      pages = [mk_page 0 12],
      tables = None,
      paragraphs = Some [mk_para (Some ''title'') 0 7, mk_para (Some ''sectionHeading'') 0 7]\<rparr>"

text \<open>
  A marked array of length \<open>n\<close> over \<open>m\<close> selected tables: every entry is the sentinel
  or the id of a selected table.
\<close>

definition marks_ok :: "nat \<Rightarrow> nat \<Rightarrow> int list \<Rightarrow> bool" where
  "marks_ok n m tc \<longleftrightarrow> length tc = n \<and> (\<forall>x\<in>set tc. x = - 1 \<or> (0 \<le> x \<and> x < int m))"


text \<open>
  One page, with a table whose two spans, at the offsets 2 to 3 and 6 to 7, are apart.
\<close>

definition split_table :: table where
  "split_table =
     \<lparr>row_count = 2, cells = abcd_cells,
      bounding_regions = [\<lparr>region_page_number = 1\<rparr>],
      table_spans = [mk_span 2 2, mk_span 6 2]\<rparr>"

definition split_result :: analysis_result where
  "split_result =
     \<lparr>content = ''ab12cd34ef'',
      pages = [mk_page 0 10],
      tables = Some [split_table],
      paragraphs = None\<rparr>"

text \<open>
  Two pages, with a table whose first bounding region is on page 1 and whose only span
  lies in the range of page 2.
\<close>

definition stray_table :: table where
  "stray_table =
     \<lparr>row_count = 2, cells = abcd_cells,
      bounding_regions = [\<lparr>region_page_number = 1\<rparr>],
      table_spans = [mk_span 12 7]\<rparr>"

definition stray_result :: analysis_result where
  "stray_result =
     \<lparr>content = ''Hello World A B C D'',
      pages = [mk_page 0 11, mk_page 12 7],
      tables = Some [stray_table],
      paragraphs = None\<rparr>"

text \<open>
  One page of six characters; a title at the offsets 0 to 2 and a section heading at
  the offsets 3 to 5, so that the offset 3 is the end of the one and the start of the
  other.
\<close>

definition adjacent_result :: analysis_result where
  "adjacent_result =
     \<lparr>content = ''abcdef'',
      pages = [mk_page 0 6],
      tables = None,
      paragraphs = Some [mk_para (Some ''title'') 0 3, mk_para (Some ''sectionHeading'') 3 3]\<rparr>"

text \<open>
  Two pages that follow each other without a gap, and a title that ends where the first
  page ends.
\<close>

definition page_end_result :: analysis_result where
  "page_end_result =
     \<lparr>content = ''abcd'',
      pages = [mk_page 0 2, mk_page 2 2],
      tables = None,
      paragraphs = Some [mk_para (Some ''title'') 0 2]\<rparr>"

text \<open>
  One page of twelve characters with a title at the offsets 5 to 9, and the same
  document cut after the offset 9, so that the title ends where the page ends.
\<close>

definition title_result :: analysis_result where
  "title_result =
     \<lparr>content = ''0123456789ab'',
      pages = [mk_page 0 12],
      tables = None,
      paragraphs = Some [mk_para (Some ''title'') 5 5]\<rparr>"

definition title_end_result :: analysis_result where
  "title_end_result =
     \<lparr>content = ''0123456789'',
      pages = [mk_page 0 10],
      tables = None,
      paragraphs = Some [mk_para (Some ''title'') 5 5]\<rparr>"


text \<open>
  A table whose cells are listed out of column order, with a column span of 3, a row
  span of 2, spans of 1, absent spans, and contents that need escaping.
\<close>

definition wide_table :: table where
  "wide_table =
     \<lparr>row_count = 2,
      cells =
        [\<lparr>row_index = 0, column_index = 3, kind = Some ''columnHeader'', column_span = None,
          row_span = None, cell_content = ''b&c''\<rparr>,
         \<lparr>row_index = 0, column_index = 0, kind = Some ''columnHeader'', column_span = Some 3,
          row_span = Some 1, cell_content = ''<script>''\<rparr>,
         \<lparr>row_index = 1, column_index = 0, kind = None, column_span = Some 1,
          row_span = Some 2, cell_content = ''x''\<rparr>],
      bounding_regions = [\<lparr>region_page_number = 1\<rparr>],
      table_spans = []\<rparr>"



text \<open>
  The page of \<open>adjacent_result\<close> with a page header in place of the section heading,
  and with a table whose span is the character at the offset 3.
\<close>

definition header_result :: analysis_result where
  "header_result =
     \<lparr>content = ''abcdef'',
      pages = [mk_page 0 6],
      tables = None,
      paragraphs = Some [mk_para (Some ''title'') 0 3, mk_para (Some ''pageHeader'') 3 3]\<rparr>"

definition boundary_table :: table where
  "boundary_table =
     \<lparr>row_count = 2, cells = abcd_cells,
      bounding_regions = [\<lparr>region_page_number = 1\<rparr>],
      table_spans = [mk_span 3 1]\<rparr>"

definition marked_boundary_result :: analysis_result where
  "marked_boundary_result =
     \<lparr>content = ''abcdef'',
      pages = [mk_page 0 6],
      tables = Some [boundary_table],
      paragraphs = Some [mk_para (Some ''title'') 0 3, mk_para (Some ''sectionHeading'') 3 3]\<rparr>"

text \<open>
  Two pages, with a table that has bounding regions on both: its first bounding region
  is on page 1, where one of its spans lies; its other span lies in the range of page 2.
\<close>

definition spill_table :: table where
  "spill_table =
     \<lparr>row_count = 2, cells = abcd_cells,
      bounding_regions = [\<lparr>region_page_number = 1\<rparr>, \<lparr>region_page_number = 2\<rparr>],
      table_spans = [mk_span 6 5, mk_span 12 7]\<rparr>"

definition spill_result :: analysis_result where
  "spill_result =
     \<lparr>content = ''Hello World A B C D'',
      pages = [mk_page 0 11, mk_page 12 7],
      tables = Some [spill_table],
      paragraphs = None\<rparr>"

text \<open>
  One page with two tables over the same span, at the offsets 1 to 2: the marks of the
  first are overwritten by those of the second.
\<close>

definition under_table :: table where
  "under_table =
     \<lparr>row_count = 2, cells = abcd_cells,
      bounding_regions = [\<lparr>region_page_number = 1\<rparr>],
      table_spans = [mk_span 1 2]\<rparr>"

definition over_table :: table where
  "over_table =
     \<lparr>row_count = 1, cells = [mk_cell 0 0 ''content'' ''Z''],
      bounding_regions = [\<lparr>region_page_number = 1\<rparr>],
      table_spans = [mk_span 1 2]\<rparr>"

definition overlaid_result :: analysis_result where
  "overlaid_result =
     \<lparr>content = ''abcd'',
      pages = [mk_page 0 4],
      tables = Some [under_table, over_table],
      paragraphs = None\<rparr>"

section \<open>Properties\<close>

subsection \<open>Results of the whole call\<close>

lemma begin_analyze_Inr:
  "begin_analyze_document_from_url client format_exc source_url use_layout = Inr pm \<longleftrightarrow>
     (\<exists>r. client (model_id use_layout) source_url = Inr r \<and> reconstruct r = Inr pm)"
  by (auto simp: begin_analyze_document_from_url_def split: sum.splits)

subsection \<open>Offsets of the page map\<close>

lemma chained_append:
  "chained off (pm @ [q]) \<longleftrightarrow> chained off pm \<and> offset q = off + total_length pm"
proof (induction pm arbitrary: off)
  case Nil
  show ?case by simp
next
  case (Cons a pm)
  show ?case by (simp add: Cons.IH add.assoc)
qed

lemma total_length_snoc:
  "total_length (pm @ [q]) = total_length pm + int (length (page_text q))"
  by (induction pm) simp_all

lemma build_pages_chained:
  "build_pages r rs re xs pm off = Inr pm' \<Longrightarrow> chained 0 pm \<Longrightarrow> off = total_length pm
     \<Longrightarrow> chained 0 pm'"
proof (induction xs arbitrary: pm off)
  case Nil
  then show ?case by simp
next
  case (Cons x xs)
  obtain page_num pg where x: "x = (page_num, pg)" by (cases x)
  from Cons.prems(1) obtain ptext where
    t: "build_page_text r rs re page_num pg = Inr ptext" and
    rest: "build_pages r rs re xs
             (pm @ [\<lparr>page_number = page_num, offset = off, page_text = ptext\<rparr>])
             (off + int (length ptext)) = Inr pm'"
    by (auto simp: x split: sum.splits)
  show ?case
    by (rule Cons.IH [OF rest]) (simp_all add: chained_append total_length_snoc Cons.prems)
qed

lemma chained_hd: "chained off pm \<Longrightarrow> pm \<noteq> [] \<Longrightarrow> offset (pm ! 0) = off"
  by (cases pm) auto

lemma chained_step:
  "chained off pm \<Longrightarrow> Suc i < length pm
     \<Longrightarrow> offset (pm ! Suc i) = offset (pm ! i) + int (length (page_text (pm ! i)))"
proof (induction pm arbitrary: off i)
  case Nil
  then show ?case by simp
next
  case (Cons p ps)
  show ?case
  proof (cases i)
    case 0
    with Cons.prems show ?thesis by (cases ps) auto
  next
    case (Suc j)
    with Cons.prems Cons.IH [of "off + int (length (page_text p))" j] show ?thesis by simp
  qed
qed

lemma reconstruct_chained:
  assumes "reconstruct r = Inr pm"
  shows "chained 0 pm"
proof -
  from assms obtain rs re where
    "build_pages r rs re (enumerate 0 (pages r)) [] 0 = Inr pm"
    by (auto simp: reconstruct_def split: sum.splits prod.splits)
  then show ?thesis
    by (rule build_pages_chained) simp_all
qed

text \<open>
  Claim C1. In the page map that \<^verbatim>\<open>begin_analyze_document_from_url\<close> returns, the
  first record has the offset 0, and each further record has the offset of the record
  before it plus the length of that record's text; so the length of the text of a page
  is the difference between the next offset and its own.
\<close>

theorem page_map_offsets:
  assumes "begin_analyze_document_from_url client format_exc source_url use_layout = Inr page_map"
  shows "(page_map \<noteq> [] \<longrightarrow> offset (page_map ! 0) = 0) \<and>
         (\<forall>i. Suc i < length page_map \<longrightarrow>
            offset (page_map ! Suc i)
              = offset (page_map ! i) + int (length (page_text (page_map ! i))) \<and>
            int (length (page_text (page_map ! i)))
              = offset (page_map ! Suc i) - offset (page_map ! i))"
proof -
  from assms obtain r where "reconstruct r = Inr page_map"
    by (auto simp: begin_analyze_Inr)
  then have c: "chained 0 page_map" by (rule reconstruct_chained)
  show ?thesis
    using chained_hd [OF c] chained_step [OF c] by auto
qed

theorem page_map_offsets_witness:
  "begin_analyze_document_from_url (\<lambda>m u. Inr hello_result) (\<lambda>e. []) ''doc'' True
     = Inr hello_page_map \<and>
   offset (hello_page_map ! 0) = 0 \<and>
   offset (hello_page_map ! Suc 0)
     = offset (hello_page_map ! 0) + int (length (page_text (hello_page_map ! 0)))"
proof -
  have h: "begin_analyze_document_from_url (\<lambda>m u. Inr hello_result) (\<lambda>e. []) ''doc'' True
             = Inr hello_page_map"
    by code_simp
  have n: "hello_page_map \<noteq> []" "Suc 0 < length hello_page_map"
    by (simp_all add: hello_page_map_def)
  from page_map_offsets [OF h] n h show ?thesis by blast
qed

subsection \<open>The rendering of a table\<close>

lemma add_cell_eq: "add_cell acc c = acc @ cell_html_spec c"
  by (simp add: add_cell_def cell_html_spec_def cell_tag_def cell_spans_def
      colspan_attr_spec_def rowspan_attr_spec_def Let_def split: option.splits)

lemma add_cells_eq: "add_cells acc cs = acc @ concat (map cell_html_spec cs)"
  by (induction cs arbitrary: acc) (simp_all add: add_cell_eq)

lemma add_rows_eq:
  "add_rows acc rows
     = acc @ concat (map (\<lambda>row. ''<tr>'' @ concat (map cell_html_spec row) @ ''</tr>'') rows)"
  by (induction rows arbitrary: acc) (simp_all add: add_cells_eq)

text \<open>
  Claim C5. \<^verbatim>\<open>_table_to_html\<close> returns the rendering that the specification words:
  the table tag, then for each row index below the row count a row of the cells of that
  row sorted by column index, each a \<open>th\<close> or \<open>td\<close> element by its kind, with the
  \<open>colspan\<close> and \<open>rowspan\<close> attributes exactly for spans above 1 and the content
  escaped, then the closing table tag. A content \<open><script>\<close> is rendered as
  \<open>&lt;script&gt;\<close>.
\<close>

theorem table_to_html_refines_spec:
  "table_to_html t = table_to_html_spec t \<and> html_escape ''<script>'' = ''&lt;script&gt;''"
proof
  show "table_to_html t = table_to_html_spec t"
    by (simp add: table_to_html_def table_to_html_spec_def table_rows_def add_rows_eq
        row_html_spec_def [abs_def] comp_def)
  show "html_escape ''<script>'' = ''&lt;script&gt;''"
    by (simp add: html_escape_def replace_char_def)
qed

theorem table_to_html_refines_spec_witness:
  \<open>table_to_html wide_table =
     ''<table><tr><th colspan="3">&lt;script&gt;</th><th>b&amp;c</th></tr><tr><td rowspan="2">x</td></tr></table>''\<close>
proof -
  have \<open>table_to_html_spec wide_table =
     ''<table><tr><th colspan="3">&lt;script&gt;</th><th>b&amp;c</th></tr><tr><td rowspan="2">x</td></tr></table>''\<close>
    by code_simp
  with table_to_html_refines_spec [of wide_table] show ?thesis by simp
qed

subsection \<open>Role boundaries\<close>

lemma index_roles_append:
  "index_roles (ps @ qs) rs re =
     (case index_roles ps rs re of Inl e \<Rightarrow> Inl e | Inr (rs', re') \<Rightarrow> index_roles qs rs' re')"
  by (induction ps arbitrary: rs re) (simp_all split: sum.splits)

lemma index_roles_other_start:
  "index_roles ps rs re = Inr (rs', re') \<Longrightarrow> \<forall>q\<in>set ps. para_start q \<noteq> Inr k \<Longrightarrow> rs' k = rs k"
proof (induction ps arbitrary: rs re)
  case Nil
  then show ?case by simp
next
  case (Cons p ps)
  from Cons.prems(1) obtain a b where
    a: "para_start p = Inr a" and b: "para_end p = Inr b" and
    rest: "index_roles ps (rs(a \<mapsto> role_or_default p)) (re(b \<mapsto> role_or_default p)) = Inr (rs', re')"
    by (auto split: sum.splits)
  from Cons.prems(2) a have "a \<noteq> k" by auto
  moreover from Cons.prems(2) have "\<forall>q\<in>set ps. para_start q \<noteq> Inr k" by simp
  ultimately show ?case using Cons.IH [OF rest] by simp
qed

lemma index_roles_other_end:
  "index_roles ps rs re = Inr (rs', re') \<Longrightarrow> \<forall>q\<in>set ps. para_end q \<noteq> Inr k \<Longrightarrow> re' k = re k"
proof (induction ps arbitrary: rs re)
  case Nil
  then show ?case by simp
next
  case (Cons p ps)
  from Cons.prems(1) obtain a b where
    a: "para_start p = Inr a" and b: "para_end p = Inr b" and
    rest: "index_roles ps (rs(a \<mapsto> role_or_default p)) (re(b \<mapsto> role_or_default p)) = Inr (rs', re')"
    by (auto split: sum.splits)
  from Cons.prems(2) b have "b \<noteq> k" by auto
  moreover from Cons.prems(2) have "\<forall>q\<in>set ps. para_end q \<noteq> Inr k" by simp
  ultimately show ?case using Cons.IH [OF rest] by simp
qed

lemma index_roles_last_start:
  assumes "index_roles (ps1 @ q # ps2) rs re = Inr (rs', re')"
    and "para_start q = Inr k"
    and "\<forall>q'\<in>set ps2. para_start q' \<noteq> Inr k"
  shows "rs' k = Some (role_or_default q)"
proof -
  from assms(1) obtain rs1 re1 where
    "index_roles (q # ps2) rs1 re1 = Inr (rs', re')"
    by (auto simp: index_roles_append split: sum.splits)
  with assms(2) obtain b where
    rest: "index_roles ps2 (rs1(k \<mapsto> role_or_default q)) (re1(b \<mapsto> role_or_default q)) = Inr (rs', re')"
    by (auto split: sum.splits)
  from index_roles_other_start [OF rest assms(3)] show ?thesis by simp
qed

lemma index_roles_last_end:
  assumes "index_roles (ps1 @ q # ps2) rs re = Inr (rs', re')"
    and "para_end q = Inr k"
    and "\<forall>q'\<in>set ps2. para_end q' \<noteq> Inr k"
  shows "re' k = Some (role_or_default q)"
proof -
  from assms(1) obtain rs1 re1 where
    "index_roles (q # ps2) rs1 re1 = Inr (rs', re')"
    by (auto simp: index_roles_append split: sum.splits)
  with assms(2) obtain a where
    rest: "index_roles ps2 (rs1(a \<mapsto> role_or_default q)) (re1(k \<mapsto> role_or_default q)) = Inr (rs', re')"
    by (auto split: sum.splits)
  from index_roles_other_end [OF rest assms(3)] show ?thesis by simp
qed

text \<open>
  Claim C8. When two paragraphs have the same start offset (or the same end offset) of
  their first spans, the entry of the start-role map (or of the end-role map) at that
  offset is the role of the later paragraph, provided no paragraph after it has that
  boundary again: the last assignment wins.
\<close>

theorem roles_last_write_wins:
  assumes "paragraphs r = Some (ps1 @ p # ps2 @ q # ps3)"
    and "mark_roles r = Inr (roles_start, roles_end)"
  shows "(para_start p = Inr k \<and> para_start q = Inr k \<and> (\<forall>q'\<in>set ps3. para_start q' \<noteq> Inr k)
            \<longrightarrow> roles_start k = Some (role_or_default q)) \<and>
         (para_end p = Inr k \<and> para_end q = Inr k \<and> (\<forall>q'\<in>set ps3. para_end q' \<noteq> Inr k)
            \<longrightarrow> roles_end k = Some (role_or_default q))"
proof -
  from assms have
    "index_roles ((ps1 @ p # ps2) @ q # ps3) Map.empty Map.empty = Inr (roles_start, roles_end)"
    by (simp add: mark_roles_def)
  from index_roles_last_start [OF this] index_roles_last_end [OF this] show ?thesis
    by blast
qed

theorem roles_last_write_wins_witness:
  "paragraphs two_titles
     = Some ([] @ mk_para (Some ''title'') 0 7 # [] @ mk_para (Some ''sectionHeading'') 0 7 # []) \<and>
   (\<exists>roles_start roles_end.
      mark_roles two_titles = Inr (roles_start, roles_end) \<and>
      roles_start 0 = Some ''sectionHeading'' \<and> roles_end 7 = Some ''sectionHeading'')"
proof -
  have p: "paragraphs two_titles
     = Some ([] @ mk_para (Some ''title'') 0 7 # [] @ mk_para (Some ''sectionHeading'') 0 7 # [])"
    by (simp add: two_titles_def)
  obtain roles_start roles_end where m: "mark_roles two_titles = Inr (roles_start, roles_end)"
    by (auto simp: mark_roles_def two_titles_def mk_para_def mk_span_def para_start_def
        para_end_def list_index_def py_index_def)
  have s: "para_start (mk_para (Some ''title'') 0 7) = Inr 0"
    "para_start (mk_para (Some ''sectionHeading'') 0 7) = Inr 0"
    "para_end (mk_para (Some ''title'') 0 7) = Inr 7"
    "para_end (mk_para (Some ''sectionHeading'') 0 7) = Inr 7"
    "role_or_default (mk_para (Some ''sectionHeading'') 0 7) = ''sectionHeading''"
    by (simp_all add: mk_para_def mk_span_def para_start_def para_end_def list_index_def
        py_index_def role_or_default_def)
  from roles_last_write_wins [OF p m, of 0] roles_last_write_wins [OF p m, of 7] s p m
  show ?thesis by simp
qed

subsection \<open>The scan of a page\<close>

lemma scan_chars_append:
  "scan_chars doc rs re tops po (xs @ ys) acc added =
     (case scan_chars doc rs re tops po xs acc added of
        Inl e \<Rightarrow> Inl e
      | Inr (acc', added') \<Rightarrow> scan_chars doc rs re tops po ys acc' added')"
proof (induction xs arbitrary: acc added)
  case Nil
  show ?case by simp
next
  case (Cons x xs)
  obtain idx table_id where x: "x = (idx, table_id)" by (cases x)
  show ?case
    by (simp add: x Cons.IH Let_def split: sum.splits)
qed

lemma scan_chars_shift:
  "scan_chars doc rs re tops po xs (t0 @ acc) added =
     (case scan_chars doc rs re tops po xs acc added of
        Inl e \<Rightarrow> Inl e
      | Inr (acc', added') \<Rightarrow> Inr (t0 @ acc', added'))"
proof (induction xs arbitrary: acc added)
  case Nil
  show ?case by simp
next
  case (Cons x xs)
  obtain idx table_id where x: "x = (idx, table_id)" by (cases x)
  show ?case
    by (simp add: x Let_def Cons.IH split: sum.splits)
qed


lemma scan_chars_skip_added:
  "tid \<in> added \<Longrightarrow> tid \<noteq> - 1 \<Longrightarrow>
   scan_chars doc rs re tops po xs acc added
     = scan_chars doc rs re tops po (filter (\<lambda>x. snd x \<noteq> tid) xs) acc added"
proof (induction xs arbitrary: acc added)
  case Nil
  show ?case by simp
next
  case (Cons x xs)
  obtain idx table_id where x: "x = (idx, table_id)" by (cases x)
  show ?case
  proof (cases "table_id = tid")
    case True
    with Cons.prems show ?thesis by (simp add: x Cons.IH)
  next
    case False
    with Cons.prems show ?thesis
      by (simp add: x Let_def Cons.IH split: sum.splits)
  qed
qed

lemma fold_invariant:
  "P s \<Longrightarrow> (\<And>x s. x \<in> set xs \<Longrightarrow> P s \<Longrightarrow> P (f x s)) \<Longrightarrow> P (fold f xs s)"
  by (induction xs arbitrary: s) simp_all

lemma marks_ok_update:
  "marks_ok n m tc \<Longrightarrow> 0 \<le> v \<Longrightarrow> v < int m \<Longrightarrow> marks_ok n m (tc[i := v])"
  unfolding marks_ok_def
  by (auto dest!: set_update_subset_insert [THEN subsetD])

lemma marks_ok_mark_char:
  "marks_ok n m tc \<Longrightarrow> 0 \<le> v \<Longrightarrow> v < int m \<Longrightarrow> marks_ok n m (mark_char po pl v s i tc)"
  by (simp add: mark_char_def Let_def marks_ok_update)

lemma marks_ok_mark_span:
  "marks_ok n m tc \<Longrightarrow> 0 \<le> v \<Longrightarrow> v < int m \<Longrightarrow> marks_ok n m (mark_span po pl v s tc)"
  unfolding mark_span_def
  by (rule fold_invariant) (simp_all add: marks_ok_mark_char)

lemma marks_ok_mark_table:
  "marks_ok n m tc \<Longrightarrow> fst it < m \<Longrightarrow> marks_ok n m (mark_table po pl it tc)"
  unfolding mark_table_def
  by (rule fold_invariant) (simp_all add: marks_ok_mark_span)

lemma marks_ok_mark_tables: "marks_ok (nat pl) (length tops) (mark_tables po pl tops)"
  unfolding mark_tables_def
proof (rule fold_invariant)
  show "marks_ok (nat pl) (length tops) (replicate (nat pl) (- 1))"
    by (simp add: marks_ok_def)
next
  fix it tc
  assume mem: "it \<in> set (enumerate 0 tops)" and ok: "marks_ok (nat pl) (length tops) tc"
  from mem have "fst it < length tops"
    by (simp add: in_set_enumerate_eq)
  with ok show "marks_ok (nat pl) (length tops) (mark_table po pl it tc)"
    by (rule marks_ok_mark_table)
qed

lemma length_mark_tables: "length (mark_tables po pl tops) = nat pl"
  using marks_ok_mark_tables [of pl tops po] by (simp add: marks_ok_def)

lemma mark_tables_id:
  assumes "enumerate 0 (mark_tables po pl tops) = pre @ (k, tid) # post" and "tid \<noteq> - 1"
  shows "0 \<le> tid \<and> nat tid < length tops"
proof -
  have "(k, tid) \<in> set (enumerate 0 (mark_tables po pl tops))"
    by (simp add: assms(1))
  then have "tid \<in> set (mark_tables po pl tops)"
    by (auto simp: in_set_enumerate_eq)
  with marks_ok_mark_tables [of pl tops po] assms(2) show ?thesis
    by (auto simp: marks_ok_def)
qed

lemma scan_chars_from_empty:
  "scan_chars doc rs re tops po xs t0 added =
     (case scan_chars doc rs re tops po xs [] added of
        Inl e \<Rightarrow> Inl e
      | Inr (acc', added') \<Rightarrow> Inr (t0 @ acc', added'))"
  using scan_chars_shift [of doc rs re tops po xs t0 "[]" added] by simp

lemma scan_chars_added_subset:
  "scan_chars doc rs re tops po xs acc added = Inr (acc', added')
     \<Longrightarrow> added' \<subseteq> added \<union> snd ` set xs"
proof (induction xs arbitrary: acc added)
  case Nil
  then show ?case by simp
next
  case (Cons x xs)
  obtain idx table_id where x: "x = (idx, table_id)" by (cases x)
  from Cons.prems show ?case
    by (auto simp: x Let_def split: sum.splits if_splits dest!: Cons.IH)
qed

text \<open>
  The text of a page, split at one entry of the marked array: the scan of the entries
  before it, the entry itself, the scan of the entries after it.
\<close>

lemma build_page_text_split:
  assumes "tables_on_page r page_num = Inr tops"
    and "list_index (page_spans pg) 0 = Inr s"
    and "enumerate 0 (mark_tables (span_offset s) (span_length s) tops) = pre @ x # post"
  shows "build_page_text r rs re page_num pg =
     (case scan_chars (content r) rs re tops (span_offset s) pre [] {} of
        Inl e \<Rightarrow> Inl e
      | Inr (before, added) \<Rightarrow>
          (case scan_chars (content r) rs re tops (span_offset s) (x # post) before added of
             Inl e \<Rightarrow> Inl e
           | Inr (acc, added') \<Rightarrow> Inr (acc @ '' '')))"
  by (simp add: build_page_text_def assms scan_chars_append Let_def split: sum.splits)

text \<open>
  A table whose id marks a character of the page is rendered where its first marked
  character stands, and its later characters are passed over.
\<close>

lemma table_rendered_at_first_mark:
  assumes "tables_on_page r page_num = Inr tops"
    and "list_index (page_spans pg) 0 = Inr s"
    and "enumerate 0 (mark_tables (span_offset s) (span_length s) tops) = pre @ (k, tid) # post"
    and "tid \<noteq> - 1"
    and "\<forall>x\<in>set pre. snd x \<noteq> tid"
  shows "0 \<le> tid \<and> nat tid < length tops \<and>
     build_page_text r roles_start roles_end page_num pg =
       (case scan_chars (content r) roles_start roles_end tops (span_offset s) pre [] {} of
          Inl e \<Rightarrow> Inl e
        | Inr (before, added) \<Rightarrow>
            (case scan_chars (content r) roles_start roles_end tops (span_offset s)
                    (filter (\<lambda>x. snd x \<noteq> tid) post) [] (insert tid added) of
               Inl e \<Rightarrow> Inl e
             | Inr (after, added') \<Rightarrow>
                 Inr (before @ table_to_html (tops ! nat tid) @ after @ '' '')))"
proof -
  let ?scan = "scan_chars (content r) roles_start roles_end tops (span_offset s)"
  from mark_tables_id [OF assms(3,4)] have id: "0 \<le> tid" "nat tid < length tops"
    by simp_all
  then have get: "list_index tops tid = Inr (tops ! nat tid)"
    by (simp add: list_index_def py_index_def)
  have fresh: "tid \<notin> added" if "?scan pre [] {} = Inr (before, added)" for before added
    using scan_chars_added_subset [OF that] assms(5) by auto
  have step: "?scan ((k, tid) # post) before added
      = (case ?scan (filter (\<lambda>x. snd x \<noteq> tid) post) [] (insert tid added) of
           Inl e \<Rightarrow> Inl e
         | Inr (after, added') \<Rightarrow> Inr (before @ table_to_html (tops ! nat tid) @ after, added'))"
    if "tid \<notin> added" for before added
  proof -
    have "?scan ((k, tid) # post) before added
        = ?scan post (before @ table_to_html (tops ! nat tid)) (insert tid added)"
      using that assms(4) by (simp add: get)
    also have "\<dots> = ?scan (filter (\<lambda>x. snd x \<noteq> tid) post)
                       (before @ table_to_html (tops ! nat tid)) (insert tid added)"
      by (rule scan_chars_skip_added) (simp_all add: assms(4))
    also have "\<dots> = (case ?scan (filter (\<lambda>x. snd x \<noteq> tid) post) [] (insert tid added) of
           Inl e \<Rightarrow> Inl e
         | Inr (after, added') \<Rightarrow> Inr (before @ table_to_html (tops ! nat tid) @ after, added'))"
      by (subst scan_chars_from_empty) (simp split: sum.splits)
    finally show ?thesis .
  qed
  have "build_page_text r roles_start roles_end page_num pg =
       (case ?scan pre [] {} of
          Inl e \<Rightarrow> Inl e
        | Inr (before, added) \<Rightarrow>
            (case ?scan (filter (\<lambda>x. snd x \<noteq> tid) post) [] (insert tid added) of
               Inl e \<Rightarrow> Inl e
             | Inr (after, added') \<Rightarrow>
                 Inr (before @ table_to_html (tops ! nat tid) @ after @ '' '')))"
  proof (cases "?scan pre [] {}")
    case (Inl e)
    then show ?thesis
      by (simp add: build_page_text_split [OF assms(1,2,3)])
  next
    case (Inr st)
    obtain before added where st: "st = (before, added)" by (cases st)
    from Inr st have pre: "?scan pre [] {} = Inr (before, added)" by simp
    show ?thesis
      by (simp add: build_page_text_split [OF assms(1,2,3)] pre step [OF fresh [OF pre]]
          del: scan_chars.simps split: sum.splits)
  qed
  with id show ?thesis by simp
qed

text \<open>A table whose id marks no character of the page takes no part in the scan.\<close>

lemma list_index_update_other:
  "0 \<le> i \<Longrightarrow> 0 \<le> tid \<Longrightarrow> i \<noteq> tid \<Longrightarrow> list_index (tops[nat tid := u]) i = list_index tops i"
  by (simp add: list_index_def py_index_def)

lemma scan_chars_other_table:
  assumes "0 \<le> tid"
    and "\<forall>x\<in>set xs. snd x = - 1 \<or> (0 \<le> snd x \<and> snd x \<noteq> tid)"
  shows "scan_chars doc rs re (tops[nat tid := u]) po xs acc added
           = scan_chars doc rs re tops po xs acc added"
  using assms(2)
proof (induction xs arbitrary: acc added)
  case Nil
  show ?case by simp
next
  case (Cons x xs)
  obtain idx table_id where x: "x = (idx, table_id)" by (cases x)
  from Cons.prems have rest: "\<forall>x\<in>set xs. snd x = - 1 \<or> (0 \<le> snd x \<and> snd x \<noteq> tid)"
    by simp
  show ?case
  proof (cases "table_id = - 1")
    case True
    then show ?thesis
      by (simp add: x Cons.IH [OF rest] Let_def split: sum.splits)
  next
    case False
    with Cons.prems have "0 \<le> table_id" "table_id \<noteq> tid"
      by (simp_all add: x)
    then have "list_index (tops[nat tid := u]) table_id = list_index tops table_id"
      using assms(1) by (simp add: list_index_update_other)
    then show ?thesis
      by (simp add: x False Cons.IH [OF rest] split: sum.splits)
  qed
qed

lemma mark_tables_entries:
  "x \<in> set (enumerate 0 (mark_tables po pl tops)) \<Longrightarrow>
   snd x = - 1 \<or> (0 \<le> snd x \<and> snd x < int (length tops))"
proof -
  assume "x \<in> set (enumerate 0 (mark_tables po pl tops))"
  then have "fst x < length (mark_tables po pl tops)" "mark_tables po pl tops ! fst x = snd x"
    by (simp_all add: in_set_enumerate_eq)
  then have "snd x \<in> set (mark_tables po pl tops)"
    using nth_mem by metis
  with marks_ok_mark_tables [of pl tops po] show ?thesis
    by (auto simp: marks_ok_def)
qed

lemma table_without_mark:
  assumes "tables_on_page r page_num = Inr tops"
    and "list_index (page_spans pg) 0 = Inr s"
    and "0 \<le> tid"
    and "tid \<notin> set (mark_tables (span_offset s) (span_length s) tops)"
  shows "(\<forall>acc added.
            scan_chars (content r) rs re tops (span_offset s)
              (enumerate 0 (mark_tables (span_offset s) (span_length s) tops)) [] {}
              = Inr (acc, added)
            \<longrightarrow> tid \<notin> added \<and> build_page_text r rs re page_num pg = Inr (acc @ '' '')) \<and>
         (\<forall>u. build_page_text r rs re page_num pg =
            (case scan_chars (content r) rs re (tops[nat tid := u]) (span_offset s)
                    (enumerate 0 (mark_tables (span_offset s) (span_length s) tops)) [] {} of
               Inl e \<Rightarrow> Inl e
             | Inr (acc, added) \<Rightarrow> Inr (acc @ '' '')))"
proof -
  let ?E = "enumerate 0 (mark_tables (span_offset s) (span_length s) tops)"
  have no: "\<forall>x\<in>set ?E. snd x \<noteq> tid"
    using assms(4) by (auto simp: in_set_enumerate_eq)
  have page: "build_page_text r rs re page_num pg =
            (case scan_chars (content r) rs re tops (span_offset s) ?E [] {} of
               Inl e \<Rightarrow> Inl e
             | Inr (acc, added) \<Rightarrow> Inr (acc @ '' ''))"
    by (simp add: build_page_text_def assms(1,2) Let_def)
  have 1: "tid \<notin> added \<and> build_page_text r rs re page_num pg = Inr (acc @ '' '')"
    if "scan_chars (content r) rs re tops (span_offset s) ?E [] {} = Inr (acc, added)"
    for acc added
    using scan_chars_added_subset [OF that] no by (auto simp: page that)
  have "\<forall>x\<in>set ?E. snd x = - 1 \<or> (0 \<le> snd x \<and> snd x \<noteq> tid)"
    using no mark_tables_entries by blast
  from scan_chars_other_table [OF assms(3) this]
  have 2: "build_page_text r rs re page_num pg =
            (case scan_chars (content r) rs re (tops[nat tid := u]) (span_offset s) ?E [] {} of
               Inl e \<Rightarrow> Inl e
             | Inr (acc, added) \<Rightarrow> Inr (acc @ '' ''))" for u
    by (simp add: page)
  from 1 2 show ?thesis by blast
qed

text \<open>
  Claim C2, as amended. For a table selected for a page whose id marks at least one
  character of the page: the text of the page is the text of the characters before the
  first character marked with the id, then the rendering of the table, then the text
  of the later characters with those marked by this id left out. So the table is
  rendered once, where its first marked character stands, however many spans of it
  mark characters of the page, and its later characters contribute nothing. For a
  table selected for a page whose id marks no character of the page: the id is not
  among the added tables when the scan ends, and the text of the page is the same with
  any other table in its place. So that table is not rendered on the page.
\<close>

theorem table_rendered_once:
  assumes "tables_on_page r page_num = Inr tops"
    and "list_index (page_spans pg) 0 = Inr s"
  shows
    "(\<forall>pre k post.
        enumerate 0 (mark_tables (span_offset s) (span_length s) tops) = pre @ (k, tid) # post \<and>
        tid \<noteq> - 1 \<and> (\<forall>x\<in>set pre. snd x \<noteq> tid) \<longrightarrow>
        0 \<le> tid \<and> nat tid < length tops \<and>
        build_page_text r roles_start roles_end page_num pg =
          (case scan_chars (content r) roles_start roles_end tops (span_offset s) pre [] {} of
             Inl e \<Rightarrow> Inl e
           | Inr (before, added) \<Rightarrow>
               (case scan_chars (content r) roles_start roles_end tops (span_offset s)
                       (filter (\<lambda>x. snd x \<noteq> tid) post) [] (insert tid added) of
                  Inl e \<Rightarrow> Inl e
                | Inr (after, added') \<Rightarrow>
                    Inr (before @ table_to_html (tops ! nat tid) @ after @ '' '')))) \<and>
     (0 \<le> tid \<and> nat tid < length tops \<and>
      tid \<notin> set (mark_tables (span_offset s) (span_length s) tops) \<longrightarrow>
        (\<forall>acc added.
            scan_chars (content r) roles_start roles_end tops (span_offset s)
              (enumerate 0 (mark_tables (span_offset s) (span_length s) tops)) [] {}
              = Inr (acc, added)
            \<longrightarrow> tid \<notin> added \<and>
                build_page_text r roles_start roles_end page_num pg = Inr (acc @ '' '')) \<and>
        (\<forall>u. build_page_text r roles_start roles_end page_num pg =
            (case scan_chars (content r) roles_start roles_end (tops[nat tid := u]) (span_offset s)
                    (enumerate 0 (mark_tables (span_offset s) (span_length s) tops)) [] {} of
               Inl e \<Rightarrow> Inl e
             | Inr (acc, added) \<Rightarrow> Inr (acc @ '' ''))))"
proof (intro conjI allI impI)
  fix pre k post
  assume a: "enumerate 0 (mark_tables (span_offset s) (span_length s) tops) = pre @ (k, tid) # post \<and>
        tid \<noteq> - 1 \<and> (\<forall>x\<in>set pre. snd x \<noteq> tid)"
  then have e: "enumerate 0 (mark_tables (span_offset s) (span_length s) tops) = pre @ (k, tid) # post"
    and t: "tid \<noteq> - 1" and f: "\<forall>x\<in>set pre. snd x \<noteq> tid"
    by simp_all
  note first = table_rendered_at_first_mark [OF assms e t f, of roles_start roles_end]
  from first show "0 \<le> tid" by simp
  from first show "nat tid < length tops" by simp
  from first show "build_page_text r roles_start roles_end page_num pg =
          (case scan_chars (content r) roles_start roles_end tops (span_offset s) pre [] {} of
             Inl e \<Rightarrow> Inl e
           | Inr (before, added) \<Rightarrow>
               (case scan_chars (content r) roles_start roles_end tops (span_offset s)
                       (filter (\<lambda>x. snd x \<noteq> tid) post) [] (insert tid added) of
                  Inl e \<Rightarrow> Inl e
                | Inr (after, added') \<Rightarrow>
                    Inr (before @ table_to_html (tops ! nat tid) @ after @ '' '')))"
    by simp
next
  fix acc added
  assume b: "0 \<le> tid \<and> nat tid < length tops \<and>
      tid \<notin> set (mark_tables (span_offset s) (span_length s) tops)"
    and c: "scan_chars (content r) roles_start roles_end tops (span_offset s)
              (enumerate 0 (mark_tables (span_offset s) (span_length s) tops)) [] {}
              = Inr (acc, added)"
  from b have "0 \<le> tid" "tid \<notin> set (mark_tables (span_offset s) (span_length s) tops)"
    by simp_all
  from table_without_mark [OF assms this, of roles_start roles_end] c
  show "tid \<notin> added" "build_page_text r roles_start roles_end page_num pg = Inr (acc @ '' '')"
    by blast+
next
  fix u
  assume b: "0 \<le> tid \<and> nat tid < length tops \<and>
      tid \<notin> set (mark_tables (span_offset s) (span_length s) tops)"
  then have "0 \<le> tid" "tid \<notin> set (mark_tables (span_offset s) (span_length s) tops)"
    by simp_all
  from table_without_mark [OF assms this, of roles_start roles_end]
  show "build_page_text r roles_start roles_end page_num pg =
            (case scan_chars (content r) roles_start roles_end (tops[nat tid := u]) (span_offset s)
                    (enumerate 0 (mark_tables (span_offset s) (span_length s) tops)) [] {} of
               Inl e \<Rightarrow> Inl e
             | Inr (acc, added) \<Rightarrow> Inr (acc @ '' ''))"
    by blast
qed

theorem table_rendered_once_witness:
  "tables_on_page split_result 0 = Inr [split_table] \<and>
   mark_tables 0 10 [split_table] = [- 1, - 1, 0, 0, - 1, - 1, 0, 0, - 1, - 1] \<and>
   build_page_text split_result Map.empty Map.empty 0 (mk_page 0 10)
     = Inr (''ab'' @ abcd_html @ ''cdef '') \<and>
   tables_on_page overlaid_result 0 = Inr [under_table, over_table] \<and>
   mark_tables 0 4 [under_table, over_table] = [- 1, 1, 1, - 1] \<and>
   scan_chars (content overlaid_result) Map.empty Map.empty [under_table, over_table] 0
       (enumerate 0 (mark_tables 0 4 [under_table, over_table])) [] {}
     = Inr (''a<table><tr><td>Z</td></tr></table>d'', {1}) \<and>
   build_page_text overlaid_result Map.empty Map.empty 0 (mk_page 0 4)
     = Inr ''a<table><tr><td>Z</td></tr></table>d '' \<and>
   tables_on_page stray_result 0 = Inr [stray_table] \<and>
   mark_tables 0 11 [stray_table] = replicate 11 (- 1) \<and>
   build_page_text stray_result Map.empty Map.empty 0 (mk_page 0 11) = Inr ''Hello World ''"
proof -
  let ?s = "mk_span 0 10"
  let ?pre = "[(0, - 1), (1, - 1)] :: (nat \<times> int) list"
  let ?post = "[(3, 0), (4, - 1), (5, - 1), (6, 0), (7, 0), (8, - 1), (9, - 1)] :: (nat \<times> int) list"
  have a: "tables_on_page split_result 0 = Inr [split_table]"
    by code_simp
  have b: "list_index (page_spans (mk_page 0 10)) 0 = Inr ?s"
    by code_simp
  have m: "mark_tables 0 10 [split_table] = [- 1, - 1, 0, 0, - 1, - 1, 0, 0, - 1, - 1]"
    by code_simp
  have c: "enumerate 0 (mark_tables (span_offset ?s) (span_length ?s) [split_table])
             = ?pre @ (2, 0) # ?post \<and> (0::int) \<noteq> - 1 \<and> (\<forall>x\<in>set ?pre. snd x \<noteq> 0)"
  proof (intro conjI)
    show "enumerate 0 (mark_tables (span_offset ?s) (span_length ?s) [split_table])
             = ?pre @ (2, 0) # ?post"
      by code_simp
  qed simp_all
  have before: "scan_chars (content split_result) Map.empty Map.empty [split_table] (span_offset ?s)
                  ?pre [] {} = Inr (''ab'', {})"
    by code_simp
  have after: "scan_chars (content split_result) Map.empty Map.empty [split_table] (span_offset ?s)
                 (filter (\<lambda>x. snd x \<noteq> 0) ?post) [] (insert 0 {}) = Inr (''cdef'', {0})"
    by code_simp
  have html: "table_to_html ([split_table] ! nat 0) = abcd_html"
    by code_simp
  from table_rendered_once [OF a b, of 0 Map.empty Map.empty] c
  have "build_page_text split_result Map.empty Map.empty 0 (mk_page 0 10) =
          (case scan_chars (content split_result) Map.empty Map.empty [split_table] (span_offset ?s)
                  ?pre [] {} of
             Inl e \<Rightarrow> Inl e
           | Inr (before, added) \<Rightarrow>
               (case scan_chars (content split_result) Map.empty Map.empty [split_table] (span_offset ?s)
                       (filter (\<lambda>x. snd x \<noteq> 0) ?post) [] (insert 0 added) of
                  Inl e \<Rightarrow> Inl e
                | Inr (after, added') \<Rightarrow>
                    Inr (before @ table_to_html ([split_table] ! nat 0) @ after @ '' '')))"
    by blast
  then have 1: "build_page_text split_result Map.empty Map.empty 0 (mk_page 0 10)
          = Inr (''ab'' @ abcd_html @ ''cdef '')"
    by (simp only: before after html sum.case prod.case) simp

  let ?t = "mk_span 0 4"
  have oa: "tables_on_page overlaid_result 0 = Inr [under_table, over_table]"
    by code_simp
  have ob: "list_index (page_spans (mk_page 0 4)) 0 = Inr ?t"
    by code_simp
  have om: "mark_tables 0 4 [under_table, over_table] = [- 1, 1, 1, - 1]"
    by code_simp
  have ot: "span_offset ?t = 0" "span_length ?t = 4"
    by (simp_all add: mk_span_def)
  have oc: "(0::int) \<le> 0 \<and> nat 0 < length [under_table, over_table] \<and>
            0 \<notin> set (mark_tables (span_offset ?t) (span_length ?t) [under_table, over_table])"
    by (simp add: ot om)
  have os: "scan_chars (content overlaid_result) Map.empty Map.empty [under_table, over_table]
              (span_offset ?t)
              (enumerate 0 (mark_tables (span_offset ?t) (span_length ?t) [under_table, over_table]))
              [] {}
            = Inr (''a<table><tr><td>Z</td></tr></table>d'', {1})"
    by code_simp
  from table_rendered_once [OF oa ob, of 0 Map.empty Map.empty] oc os
  have 2: "(0::int) \<notin> {1} \<and>
           build_page_text overlaid_result Map.empty Map.empty 0 (mk_page 0 4)
             = Inr (''a<table><tr><td>Z</td></tr></table>d'' @ '' '')"
    by blast

  have sa: "tables_on_page stray_result 0 = Inr [stray_table]"
    by code_simp
  have sm: "mark_tables 0 11 [stray_table] = replicate 11 (- 1)"
    by code_simp
  have st: "build_page_text stray_result Map.empty Map.empty 0 (mk_page 0 11) = Inr ''Hello World ''"
    by code_simp
  from 1 2 a m oa om os sa sm st show ?thesis
    by (simp add: ot)
qed

theorem table_rendered_once_counterexample:
  "tables_on_page stray_result 0 = Inr [stray_table] \<and>
   mark_tables 0 11 [stray_table] = replicate 11 (- 1) \<and>
   build_page_text stray_result Map.empty Map.empty 0 (mk_page 0 11) = Inr ''Hello World ''"
  by code_simp

subsection \<open>Role tags in the text of a page\<close>

lemma scan_chars_unmarked:
  "scan_chars doc rs re tops po ((idx, - 1) # post) before added =
     (case str_index doc (po + int idx) of
        Inl e \<Rightarrow> Inl e
      | Inr c \<Rightarrow>
          (case scan_chars doc rs re tops po post [] added of
             Inl e \<Rightarrow> Inl e
           | Inr (after, added') \<Rightarrow>
               Inr (before @ open_tag rs (po + int idx) @ close_tag re (po + int idx) @ [c] @ after,
                    added')))"
proof (cases "str_index doc (po + int idx)")
  case (Inl e)
  then show ?thesis by simp
next
  case (Inr c)
  have "scan_chars doc rs re tops po ((idx, - 1) # post) before added
      = scan_chars doc rs re tops po post
          (before @ open_tag rs (po + int idx) @ close_tag re (po + int idx) @ [c]) added"
    by (simp add: Inr Let_def)
  also have "\<dots> = (case scan_chars doc rs re tops po post [] added of
             Inl e \<Rightarrow> Inl e
           | Inr (after, added') \<Rightarrow>
               Inr (before @ open_tag rs (po + int idx) @ close_tag re (po + int idx) @ [c] @ after,
                    added'))"
    by (subst scan_chars_from_empty) (simp split: sum.splits)
  finally show ?thesis by (simp add: Inr)
qed

lemma build_page_text_at_char:
  assumes "tables_on_page r page_num = Inr tops"
    and "list_index (page_spans pg) 0 = Inr s"
    and "enumerate 0 (mark_tables (span_offset s) (span_length s) tops) = pre @ (idx, - 1) # post"
    and "build_page_text r rs re page_num pg = Inr ptext"
  shows "\<exists>before added c after added'.
      scan_chars (content r) rs re tops (span_offset s) pre [] {} = Inr (before, added) \<and>
      str_index (content r) (span_offset s + int idx) = Inr c \<and>
      scan_chars (content r) rs re tops (span_offset s) post [] added = Inr (after, added') \<and>
      ptext = before @ open_tag rs (span_offset s + int idx)
                @ close_tag re (span_offset s + int idx) @ [c] @ after @ '' ''"
  using assms(4)
  unfolding build_page_text_split [OF assms(1,2,3)]
  by (auto simp: scan_chars_unmarked simp del: scan_chars.simps split: sum.splits)

text \<open>
  Claim C10, as amended. At a scanned position that no table marks and that is both a
  recorded role start and a recorded role end, the text of the page continues after the
  text of the earlier positions with the opening tag of the starting role, then the
  closing tag of the ending role, then the character at that offset; a role without a
  tag in the role table contributes no tag.
\<close>

theorem boundary_tag_order:
  assumes "tables_on_page r page_num = Inr tops"
    and "list_index (page_spans pg) 0 = Inr s"
    and "enumerate 0 (mark_tables (span_offset s) (span_length s) tops) = pre @ (idx, - 1) # post"
    and "roles_start (span_offset s + int idx) = Some r1"
    and "roles_end (span_offset s + int idx) = Some r2"
    and "build_page_text r roles_start roles_end page_num pg = Inr ptext"
  shows "\<exists>before added c after.
      scan_chars (content r) roles_start roles_end tops (span_offset s) pre [] {}
        = Inr (before, added) \<and>
      str_index (content r) (span_offset s + int idx) = Inr c \<and>
      ptext = before
                @ (case role_get r1 of None \<Rightarrow> [] | Some h1 \<Rightarrow> ''<'' @ h1 @ ''>'')
                @ (case role_get r2 of None \<Rightarrow> [] | Some h2 \<Rightarrow> ''</'' @ h2 @ ''>'')
                @ [c] @ after"
proof -
  have o: "open_tag roles_start (span_offset s + int idx)
             = (case role_get r1 of None \<Rightarrow> [] | Some h1 \<Rightarrow> ''<'' @ h1 @ ''>'')"
    by (simp add: open_tag_def assms(4))
  have c: "close_tag roles_end (span_offset s + int idx)
             = (case role_get r2 of None \<Rightarrow> [] | Some h2 \<Rightarrow> ''</'' @ h2 @ ''>'')"
    by (simp add: close_tag_def assms(5))
  from build_page_text_at_char [OF assms(1,2,3,6)] show ?thesis
    unfolding o c by blast
qed

theorem boundary_tag_order_witness:
  "build_page_text adjacent_result [0 \<mapsto> ''title'', 3 \<mapsto> ''sectionHeading'']
       [3 \<mapsto> ''title'', 6 \<mapsto> ''sectionHeading''] 0 (mk_page 0 6)
     = Inr ''<h1>abc<h2></h1>def '' \<and>
   (\<exists>after. ''<h1>abc<h2></h1>def '' = ''<h1>abc'' @ ''<h2>'' @ ''</h1>'' @ ''d'' @ after) \<and>
   build_page_text header_result [0 \<mapsto> ''title'', 3 \<mapsto> ''pageHeader'']
       [3 \<mapsto> ''title'', 6 \<mapsto> ''pageHeader''] 0 (mk_page 0 6)
     = Inr ''<h1>abc</h1>def '' \<and>
   (\<exists>after. ''<h1>abc</h1>def '' = ''<h1>abc'' @ [] @ ''</h1>'' @ ''d'' @ after)"
proof -
  let ?rs = "[0 \<mapsto> ''title'', 3 \<mapsto> ''sectionHeading''] :: roles"
  let ?re = "[3 \<mapsto> ''title'', 6 \<mapsto> ''sectionHeading''] :: roles"
  let ?hs = "[0 \<mapsto> ''title'', 3 \<mapsto> ''pageHeader''] :: roles"
  let ?he = "[3 \<mapsto> ''title'', 6 \<mapsto> ''pageHeader''] :: roles"
  let ?s = "mk_span 0 6"
  let ?pre = "[(0, - 1), (1, - 1), (2, - 1)] :: (nat \<times> int) list"
  let ?post = "[(4, - 1), (5, - 1)] :: (nat \<times> int) list"
  have a: "tables_on_page adjacent_result 0 = Inr []" "tables_on_page header_result 0 = Inr []"
    by code_simp+
  have b: "list_index (page_spans (mk_page 0 6)) 0 = Inr ?s"
    by code_simp
  have c: "enumerate 0 (mark_tables (span_offset ?s) (span_length ?s) []) = ?pre @ (3, - 1) # ?post"
    by code_simp
  have s3: "span_offset ?s + int 3 = 3"
    by (simp add: mk_span_def)
  have d: "?rs (span_offset ?s + int 3) = Some ''sectionHeading''"
    "?re (span_offset ?s + int 3) = Some ''title''"
    "?hs (span_offset ?s + int 3) = Some ''pageHeader''"
    "?he (span_offset ?s + int 3) = Some ''title''"
    unfolding s3 by simp_all
  have g: "role_get ''sectionHeading'' = Some ''h2''" "role_get ''title'' = Some ''h1''"
    "role_get ''pageHeader'' = None"
    by (simp_all add: role_get_def form_recognizer_role_to_html_def)
  have t: "build_page_text adjacent_result ?rs ?re 0 (mk_page 0 6) = Inr ''<h1>abc<h2></h1>def ''"
    by code_simp
  have u: "build_page_text header_result ?hs ?he 0 (mk_page 0 6) = Inr ''<h1>abc</h1>def ''"
    by code_simp
  have p: "scan_chars (content adjacent_result) ?rs ?re [] (span_offset ?s) ?pre [] {}
             = Inr (''<h1>abc'', {})"
    by code_simp
  have q: "scan_chars (content header_result) ?hs ?he [] (span_offset ?s) ?pre [] {}
             = Inr (''<h1>abc'', {})"
    by code_simp
  have i: "str_index (content adjacent_result) (span_offset ?s + int 3) = Inr CHR ''d''"
    by code_simp
  have j: "str_index (content header_result) (span_offset ?s + int 3) = Inr CHR ''d''"
    by code_simp
  from boundary_tag_order [OF a(1) b c d(1) d(2) t]
  have 1: "\<exists>after. ''<h1>abc<h2></h1>def '' = ''<h1>abc'' @ ''<h2>'' @ ''</h1>'' @ ''d'' @ after"
    unfolding p i g by simp
  from boundary_tag_order [OF a(2) b c d(3) d(4) u]
  have 2: "\<exists>after. ''<h1>abc</h1>def '' = ''<h1>abc'' @ [] @ ''</h1>'' @ ''d'' @ after"
    unfolding q j g by simp
  from 1 2 t u show ?thesis by blast
qed

text \<open>
  The claim as it was stated fails at a boundary that a table marks: the offset 3 is a
  recorded role start and a recorded role end, and the text of the page has there the
  rendered table, without the tags and without the character \<open>d\<close>.
\<close>

theorem boundary_tag_order_counterexample:
  "mark_roles marked_boundary_result
     = Inr ([0 \<mapsto> ''title'', 3 \<mapsto> ''sectionHeading''],
            [3 \<mapsto> ''title'', 6 \<mapsto> ''sectionHeading'']) \<and>
   mark_tables 0 6 [boundary_table] = [- 1, - 1, - 1, 0, - 1, - 1] \<and>
   reconstruct marked_boundary_result
     = Inr [\<lparr>page_number = 0, offset = 0, page_text = ''<h1>abc'' @ abcd_html @ ''ef ''\<rparr>]"
proof (intro conjI)
  show "mark_roles marked_boundary_result
     = Inr ([0 \<mapsto> ''title'', 3 \<mapsto> ''sectionHeading''],
            [3 \<mapsto> ''title'', 6 \<mapsto> ''sectionHeading''])"
    by (simp add: mark_roles_def marked_boundary_result_def mk_para_def mk_span_def para_start_def
        para_end_def list_index_def py_index_def role_or_default_def)
  show "mark_tables 0 6 [boundary_table] = [- 1, - 1, - 1, 0, - 1, - 1]"
    by code_simp
  show "reconstruct marked_boundary_result
     = Inr [\<lparr>page_number = 0, offset = 0, page_text = ''<h1>abc'' @ abcd_html @ ''ef ''\<rparr>]"
    by code_simp
qed

lemma scan_chars_cong_end:
  "\<forall>x\<in>set xs. re' (po + int (fst x)) = re (po + int (fst x)) \<Longrightarrow>
   scan_chars doc rs re' tops po xs acc added = scan_chars doc rs re tops po xs acc added"
proof (induction xs arbitrary: acc added)
  case Nil
  show ?case by simp
next
  case (Cons x xs)
  obtain idx table_id where x: "x = (idx, table_id)" by (cases x)
  from Cons.prems have here: "close_tag re' (po + int idx) = close_tag re (po + int idx)"
    by (simp add: x close_tag_def)
  from Cons.prems have "\<forall>x\<in>set xs. re' (po + int (fst x)) = re (po + int (fst x))"
    by simp
  then show ?case
    by (simp add: x here Cons.IH Let_def split: sum.splits)
qed

text \<open>
  Claim C9, as amended. The text of a page depends on the end-role map only at the
  offsets from the page offset up to, and without, the page offset plus the page length:
  two end-role maps that agree there give the same text. So an entry at the page offset
  plus the page length, the end of a paragraph that ends where the page ends, adds no
  closing tag to the text of this page.
\<close>

theorem closing_tags_within_page:
  assumes "list_index (page_spans pg) 0 = Inr s"
    and "\<forall>k. span_offset s \<le> k \<and> k < span_offset s + span_length s
           \<longrightarrow> roles_end' k = roles_end k"
  shows "build_page_text r roles_start roles_end' page_num pg
           = build_page_text r roles_start roles_end page_num pg"
proof (cases "tables_on_page r page_num")
  case (Inl e)
  then show ?thesis by (simp add: build_page_text_def)
next
  case (Inr tops)
  let ?tc = "mark_tables (span_offset s) (span_length s) tops"
  have "\<forall>x\<in>set (enumerate 0 ?tc).
          roles_end' (span_offset s + int (fst x)) = roles_end (span_offset s + int (fst x))"
  proof
    fix x
    assume "x \<in> set (enumerate 0 ?tc)"
    then have "fst x < nat (span_length s)"
      by (simp add: in_set_enumerate_eq length_mark_tables)
    then have "span_offset s \<le> span_offset s + int (fst x)"
      "span_offset s + int (fst x) < span_offset s + span_length s"
      by simp_all
    with assms(2) show
      "roles_end' (span_offset s + int (fst x)) = roles_end (span_offset s + int (fst x))"
      by blast
  qed
  then have "scan_chars (content r) roles_start roles_end' tops (span_offset s)
               (enumerate 0 ?tc) [] {}
           = scan_chars (content r) roles_start roles_end tops (span_offset s)
               (enumerate 0 ?tc) [] {}"
    by (rule scan_chars_cong_end)
  then show ?thesis
    by (simp add: build_page_text_def Inr assms(1) Let_def)
qed

theorem closing_tags_within_page_witness:
  "list_index (page_spans (mk_page 0 2)) 0 = Inr (mk_span 0 2) \<and>
   build_page_text page_end_result [0 \<mapsto> ''title''] Map.empty 0 (mk_page 0 2)
     = build_page_text page_end_result [0 \<mapsto> ''title''] [2 \<mapsto> ''title''] 0 (mk_page 0 2) \<and>
   build_page_text page_end_result [0 \<mapsto> ''title''] [2 \<mapsto> ''title''] 0 (mk_page 0 2)
     = Inr ''<h1>ab ''"
proof -
  have a: "list_index (page_spans (mk_page 0 2)) 0 = Inr (mk_span 0 2)"
    by code_simp
  have b: "\<forall>k. span_offset (mk_span 0 2) \<le> k \<and> k < span_offset (mk_span 0 2) + span_length (mk_span 0 2)
              \<longrightarrow> (Map.empty :: roles) k = [2 \<mapsto> ''title''] k"
    by (simp add: mk_span_def)
  have c: "build_page_text page_end_result [0 \<mapsto> ''title''] [2 \<mapsto> ''title''] 0 (mk_page 0 2)
             = Inr ''<h1>ab ''"
    by code_simp
  from closing_tags_within_page [OF a b, of page_end_result "[0 \<mapsto> ''title'']" 0] a c
  show ?thesis by blast
qed

theorem closing_tags_within_page_counterexample:
  "para_end (mk_para (Some ''title'') 0 2) = Inr (span_offset (mk_span 0 2) + span_length (mk_span 0 2)) \<and>
   reconstruct page_end_result =
     Inr [\<lparr>page_number = 0, offset = 0, page_text = ''<h1>ab ''\<rparr>,
          \<lparr>page_number = 1, offset = 7, page_text = ''</h1>cd ''\<rparr>]"
  by code_simp

lemma scan_chars_at_char:
  assumes "scan_chars doc rs re tops po (pre @ (idx, - 1) # post) [] {} = Inr (acc, added')"
  shows "\<exists>before added c after.
      scan_chars doc rs re tops po pre [] {} = Inr (before, added) \<and>
      str_index doc (po + int idx) = Inr c \<and>
      scan_chars doc rs re tops po post [] added = Inr (after, added') \<and>
      acc = before @ open_tag rs (po + int idx) @ close_tag re (po + int idx) @ [c] @ after"
  using assms
  by (auto simp: scan_chars_append scan_chars_unmarked simp del: scan_chars.simps
      split: sum.splits)

lemma str_index_nonneg: "str_index doc k = Inr c \<Longrightarrow> 0 \<le> k \<Longrightarrow> c = doc ! nat k"
  by (auto simp: str_index_def py_index_def split: if_splits)

lemma enumerate_split:
  "i < length tc \<Longrightarrow>
   enumerate 0 tc = take i (enumerate 0 tc) @ (i, tc ! i) # drop (Suc i) (enumerate 0 tc)"
  using id_take_nth_drop [of i "enumerate 0 tc"] by (simp add: nth_enumerate_eq)

lemma take_enumerate_split:
  "i < j \<Longrightarrow> j \<le> length tc \<Longrightarrow>
   take j (enumerate 0 tc)
     = take i (enumerate 0 tc) @ (i, tc ! i) # drop (Suc i) (take j (enumerate 0 tc))"
  using id_take_nth_drop [of i "take j (enumerate 0 tc)"]
  by (simp add: nth_enumerate_eq min_def)

text \<open>
  Where a title over the offsets 5 to 9 ends inside a page without tables, the code
  wraps it: if the page contains the offsets 5 and 10, no later paragraph starts at 5 or
  ends at 10, no closing tag is due at 5 and no opening tag at 10, then in the text of
  the page \<open><h1>\<close> stands right after the text of the offsets before 5 and right before
  the character of offset 5, and \<open></h1>\<close> stands right after the character of offset 9,
  which ends the text of the offsets before 10, and right before the character of
  offset 10.
\<close>

lemma title_wrapping_inside_page:
  assumes "mark_roles r = Inr (roles_start, roles_end)"
    and "paragraphs r = Some (ps1 @ p # ps2)"
    and "role p = Some ''title''" and "para_start p = Inr 5" and "para_end p = Inr 10"
    and "\<forall>q\<in>set ps2. para_start q \<noteq> Inr 5 \<and> para_end q \<noteq> Inr 10"
    and "close_tag roles_end 5 = []" and "open_tag roles_start 10 = []"
    and "tables_on_page r page_num = Inr []"
    and "list_index (page_spans pg) 0 = Inr s"
    and "span_offset s \<le> 5" and "10 < span_offset s + span_length s"
    and "build_page_text r roles_start roles_end page_num pg = Inr ptext"
  shows "\<exists>A B C added added'.
      scan_chars (content r) roles_start roles_end [] (span_offset s)
          (take (nat (5 - span_offset s))
             (enumerate 0 (mark_tables (span_offset s) (span_length s) []))) [] {}
        = Inr (A, added) \<and>
      scan_chars (content r) roles_start roles_end [] (span_offset s)
          (take (nat (10 - span_offset s))
             (enumerate 0 (mark_tables (span_offset s) (span_length s) []))) [] {}
        = Inr (A @ ''<h1>'' @ [content r ! 5] @ B @ [content r ! 9], added') \<and>
      ptext = A @ ''<h1>'' @ [content r ! 5] @ B @ [content r ! 9] @ ''</h1>''
                @ [content r ! 10] @ C"
proof -
  let ?po = "span_offset s"
  let ?tc = "mark_tables ?po (span_length s) []"
  let ?E = "enumerate 0 ?tc"
  let ?scan = "scan_chars (content r) roles_start roles_end [] ?po"
  let ?i5 = "nat (5 - ?po)"
  let ?i9 = "nat (9 - ?po)"
  let ?i10 = "nat (10 - ?po)"
  have tc: "?tc = replicate (nat (span_length s)) (- 1)"
    by (simp add: mark_tables_def)
  have len: "length ?tc = nat (span_length s)"
    by (rule length_mark_tables)
  have idx: "?i5 < ?i9" "?i10 = Suc ?i9" "?i10 < length ?tc" "?i9 \<le> length ?tc"
    using assms(11,12) by (simp_all add: len)
  have pos: "?po + int ?i5 = 5" "?po + int ?i9 = 9" "?po + int ?i10 = 10"
    using assms(11) by simp_all
  have lt: "?i5 < nat (span_length s)" "?i9 < nat (span_length s)" "?i10 < nat (span_length s)"
    using assms(11,12) by simp_all
  have nth: "?tc ! ?i5 = - 1" "?tc ! ?i9 = - 1" "?tc ! ?i10 = - 1"
    unfolding tc using lt by (simp_all only: nth_replicate)

  from assms(1,2) have ix:
    "index_roles (ps1 @ p # ps2) Map.empty Map.empty = Inr (roles_start, roles_end)"
    by (simp add: mark_roles_def)
  have rd: "role_or_default p = ''title''"
    by (simp add: role_or_default_def assms(3))
  from index_roles_last_start [OF ix assms(4)] assms(6) rd
  have "roles_start 5 = Some ''title''" by simp
  then have o5: "open_tag roles_start 5 = ''<h1>''"
    by (simp add: open_tag_def role_get_def form_recognizer_role_to_html_def)
  from index_roles_last_end [OF ix assms(5)] assms(6) rd
  have "roles_end 10 = Some ''title''" by simp
  then have c10: "close_tag roles_end 10 = ''</h1>''"
    by (simp add: close_tag_def role_get_def form_recognizer_role_to_html_def)

  have e10: "?E = take ?i10 ?E @ (?i10, - 1) # drop (Suc ?i10) ?E"
    by (rule enumerate_split [OF idx(3), unfolded nth(3)])
  from build_page_text_at_char [OF assms(9,10) e10 assms(13)]
  obtain T10 a10 ch10 after10 where
    s10: "?scan (take ?i10 ?E) [] {} = Inr (T10, a10)" and
    g10: "str_index (content r) 10 = Inr ch10" and
    p10: "ptext = T10 @ ''</h1>'' @ [ch10] @ after10 @ '' ''"
    unfolding pos c10 assms(8) by auto

  have e9: "take ?i10 ?E = take ?i9 ?E @ (?i9, - 1) # []"
    using take_Suc_conv_app_nth [of ?i9 ?E] idx(2,3) nth(2)
    by (simp add: nth_enumerate_eq)
  have s10': "?scan (take ?i9 ?E @ (?i9, - 1) # []) [] {} = Inr (T10, a10)"
    using s10 by (simp only: e9)
  from scan_chars_at_char [OF s10']
  obtain T9 a9 ch9 where
    s9: "?scan (take ?i9 ?E) [] {} = Inr (T9, a9)" and
    g9: "str_index (content r) 9 = Inr ch9" and
    p9: "T10 = T9 @ open_tag roles_start 9 @ close_tag roles_end 9 @ [ch9]"
    unfolding pos by auto

  have e5: "take ?i9 ?E = take ?i5 ?E @ (?i5, - 1) # drop (Suc ?i5) (take ?i9 ?E)"
    by (rule take_enumerate_split [OF idx(1,4), unfolded nth(1)])
  have s9': "?scan (take ?i5 ?E @ (?i5, - 1) # drop (Suc ?i5) (take ?i9 ?E)) [] {} = Inr (T9, a9)"
    using s9 by (simp only: e5 [symmetric])
  from scan_chars_at_char [OF s9']
  obtain A a5 ch5 M where
    s5: "?scan (take ?i5 ?E) [] {} = Inr (A, a5)" and
    g5: "str_index (content r) 5 = Inr ch5" and
    p5: "T9 = A @ ''<h1>'' @ [ch5] @ M"
    unfolding pos o5 assms(7) by auto

  have ch: "ch5 = content r ! 5" "ch9 = content r ! 9" "ch10 = content r ! 10"
    using str_index_nonneg [OF g5] str_index_nonneg [OF g9] str_index_nonneg [OF g10]
    by simp_all
  let ?B = "M @ open_tag roles_start 9 @ close_tag roles_end 9"
  have t10: "T10 = A @ ''<h1>'' @ [content r ! 5] @ ?B @ [content r ! 9]"
    by (simp add: p9 p5 ch)
  have "?scan (take ?i10 ?E) [] {} = Inr (A @ ''<h1>'' @ [content r ! 5] @ ?B @ [content r ! 9], a10)"
    using s10 by (simp only: t10)
  moreover have "ptext = A @ ''<h1>'' @ [content r ! 5] @ ?B @ [content r ! 9] @ ''</h1>''
                @ [content r ! 10] @ (after10 @ '' '')"
    by (simp add: p10 t10 ch)
  ultimately show ?thesis using s5 by blast
qed

lemma title_wrapping_inside_page_example:
  "mark_roles title_result = Inr ([5 \<mapsto> ''title''], [10 \<mapsto> ''title'']) \<and>
   build_page_text title_result [5 \<mapsto> ''title''] [10 \<mapsto> ''title''] 0 (mk_page 0 12)
     = Inr ''01234<h1>56789</h1>ab '' \<and>
   (\<exists>A B C. ''01234<h1>56789</h1>ab ''
      = A @ ''<h1>'' @ [content title_result ! 5] @ B @ [content title_result ! 9] @ ''</h1>''
          @ [content title_result ! 10] @ C)"
proof -
  let ?rs = "[5 \<mapsto> ''title''] :: roles"
  let ?re = "[10 \<mapsto> ''title''] :: roles"
  let ?p = "mk_para (Some ''title'') 5 5"
  let ?s = "mk_span 0 12"
  have h1: "mark_roles title_result = Inr (?rs, ?re)"
    by (simp add: mark_roles_def title_result_def mk_para_def mk_span_def para_start_def
        para_end_def list_index_def py_index_def role_or_default_def)
  have h2: "paragraphs title_result = Some ([] @ ?p # [])"
    by (simp add: title_result_def)
  have h3: "role ?p = Some ''title''"
    by (simp add: mk_para_def)
  have h4: "para_start ?p = Inr 5"
    by (simp add: mk_para_def mk_span_def para_start_def list_index_def py_index_def)
  have h5: "para_end ?p = Inr 10"
    by (simp add: mk_para_def mk_span_def para_end_def list_index_def py_index_def)
  have h6: "\<forall>q\<in>set []. para_start q \<noteq> Inr 5 \<and> para_end q \<noteq> Inr 10"
    by simp
  have h7: "close_tag ?re 5 = []"
    by (simp add: close_tag_def)
  have h8: "open_tag ?rs 10 = []"
    by (simp add: open_tag_def)
  have h9: "tables_on_page title_result 0 = Inr []"
    by code_simp
  have h10: "list_index (page_spans (mk_page 0 12)) 0 = Inr ?s"
    by code_simp
  have h11: "span_offset ?s \<le> 5"
    by (simp add: mk_span_def)
  have h12: "10 < span_offset ?s + span_length ?s"
    by (simp add: mk_span_def)
  have h13: "build_page_text title_result ?rs ?re 0 (mk_page 0 12) = Inr ''01234<h1>56789</h1>ab ''"
    by code_simp
  from title_wrapping_inside_page [OF h1 h2 h3 h4 h5 h6 h7 h8 h9 h10 h11 h12 h13]
  have "\<exists>A B C. ''01234<h1>56789</h1>ab ''
      = A @ ''<h1>'' @ [content title_result ! 5] @ B @ [content title_result ! 9] @ ''</h1>''
          @ [content title_result ! 10] @ C"
    by blast
  with h1 h13 show ?thesis by blast
qed

text \<open>
  Claim C4. For a paragraph with role \<open>title\<close> whose first span covers the offsets 5
  to 9, on a page without tables, the text of the page is to hold \<open><h1>\<close> right before
  the character of offset 5 and \<open></h1>\<close> right after the character of offset 9. The
  code records the closing tag at the offset 10 and appends it only when the scan
  reaches that offset. For the document \<open>title_end_result\<close>, whose only page ends with
  the title, the scan stops at the offset 9: the text of the page opens the tag and
  never closes it.
\<close>

theorem title_closing_tag_lost_at_page_end:
  "mark_roles title_end_result = Inr ([5 \<mapsto> ''title''], [10 \<mapsto> ''title'']) \<and>
   tables_on_page title_end_result 0 = Inr [] \<and>
   reconstruct title_end_result
     = Inr [\<lparr>page_number = 0, offset = 0, page_text = ''01234<h1>56789 ''\<rparr>] \<and>
   reconstruct title_result
     = Inr [\<lparr>page_number = 0, offset = 0, page_text = ''01234<h1>56789</h1>ab ''\<rparr>]"
proof (intro conjI)
  show "reconstruct title_result
     = Inr [\<lparr>page_number = 0, offset = 0, page_text = ''01234<h1>56789</h1>ab ''\<rparr>]"
    by code_simp
  show "mark_roles title_end_result = Inr ([5 \<mapsto> ''title''], [10 \<mapsto> ''title''])"
    by (simp add: mark_roles_def title_end_result_def mk_para_def mk_span_def para_start_def
        para_end_def list_index_def py_index_def role_or_default_def)
  show "tables_on_page title_end_result 0 = Inr []"
    by code_simp
  show "reconstruct title_end_result
     = Inr [\<lparr>page_number = 0, offset = 0, page_text = ''01234<h1>56789 ''\<rparr>]"
    by code_simp
qed

subsection \<open>The tables of a page\<close>

lemma first_region_page_eq:
  "first_region_page t = Inr m \<longleftrightarrow>
     (\<exists>b bs. bounding_regions t = b # bs \<and> region_page_number b = m)"
  by (cases "bounding_regions t")
    (auto simp: first_region_page_def list_index_def py_index_def)

lemma select_tables_Inr:
  "select_tables ts n = Inr tops \<Longrightarrow>
   tops = filter (\<lambda>t. first_region_page t = Inr (int n + 1)) ts \<and>
   (\<forall>t\<in>set ts. \<exists>m. first_region_page t = Inr m)"
proof (induction ts arbitrary: tops)
  case Nil
  then show ?case by simp
next
  case (Cons t ts)
  from Cons.prems obtain m rest where
    m: "first_region_page t = Inr m" and
    rest: "select_tables ts n = Inr rest" and
    tops: "tops = (if m = int n + 1 then t # rest else rest)"
    by (auto split: sum.splits)
  from Cons.IH [OF rest] m tops show ?case by simp
qed

lemma select_tables_total:
  "\<forall>t\<in>set ts. \<exists>m. first_region_page t = Inr m \<Longrightarrow>
   select_tables ts n = Inr (filter (\<lambda>t. first_region_page t = Inr (int n + 1)) ts)"
  by (induction ts) auto

lemma filter_removeAll_other:
  "\<not> P t \<Longrightarrow> filter P (removeAll t ts) = filter P ts"
  by (induction ts) auto

text \<open>What marking with one span does to each entry of the character array of a page.\<close>

lemma length_mark_char: "length (mark_char po pl tid s i tc) = length tc"
  by (simp add: mark_char_def Let_def)

lemma length_fold_mark_char: "length (fold (mark_char po pl tid s) ns tc) = length tc"
  by (induction ns arbitrary: tc) (simp_all add: length_mark_char)

lemma length_mark_span: "length (mark_span po pl tid s tc) = length tc"
  by (simp add: mark_span_def length_fold_mark_char)

lemma mark_char_nth:
  assumes "length tc = nat pl" and "j < nat pl"
  shows "mark_char po pl tid s i tc ! j
           = (if span_offset s - po + int i = int j then tid else tc ! j)"
proof (cases "0 \<le> span_offset s - po + int i \<and> span_offset s - po + int i < pl")
  case True
  then have "nat (span_offset s - po + int i) < length tc"
    using assms(1) by simp
  moreover from True have "nat (span_offset s - po + int i) = j
      \<longleftrightarrow> span_offset s - po + int i = int j"
    by auto
  ultimately show ?thesis
    using True by (simp add: mark_char_def Let_def nth_list_update)
next
  case False
  from assms(2) have "0 \<le> int j" "int j < pl" by simp_all
  with False have ne: "span_offset s - po + int i \<noteq> int j" by auto
  from False have "mark_char po pl tid s i tc = tc"
    by (auto simp: mark_char_def Let_def)
  with ne show ?thesis by simp
qed

lemma fold_mark_char_nth:
  assumes "length tc = nat pl" and "j < nat pl"
  shows "fold (mark_char po pl tid s) [0..<n] tc ! j
           = (if \<exists>i<n. span_offset s - po + int i = int j then tid else tc ! j)"
proof (induction n)
  case 0
  show ?case by simp
next
  case (Suc n)
  let ?tc = "fold (mark_char po pl tid s) [0..<n] tc"
  have len: "length ?tc = nat pl"
    by (simp add: length_fold_mark_char assms(1))
  have "fold (mark_char po pl tid s) [0..<Suc n] tc ! j = mark_char po pl tid s n ?tc ! j"
    by simp
  also have "\<dots> = (if span_offset s - po + int n = int j then tid else ?tc ! j)"
    by (rule mark_char_nth [OF len assms(2)])
  also have "\<dots> = (if \<exists>i<Suc n. span_offset s - po + int i = int j then tid else tc ! j)"
    by (auto simp: Suc.IH less_Suc_eq)
  finally show ?case .
qed

lemma mark_span_nth:
  assumes "length tc = nat pl" and "j < nat pl"
  shows "mark_span po pl tid s tc ! j
           = (if span_offset s \<le> po + int j \<and> po + int j < span_offset s + span_length s
              then tid else tc ! j)"
proof -
  have "(\<exists>i<nat (span_length s). span_offset s - po + int i = int j)
          \<longleftrightarrow> span_offset s \<le> po + int j \<and> po + int j < span_offset s + span_length s"
  proof
    assume "\<exists>i<nat (span_length s). span_offset s - po + int i = int j"
    then obtain i where "i < nat (span_length s)" "span_offset s - po + int i = int j"
      by blast
    then show "span_offset s \<le> po + int j \<and> po + int j < span_offset s + span_length s"
      by auto
  next
    assume a: "span_offset s \<le> po + int j \<and> po + int j < span_offset s + span_length s"
    let ?i = "nat (po + int j - span_offset s)"
    from a have "?i < nat (span_length s)" "span_offset s - po + int ?i = int j"
      by auto
    then show "\<exists>i<nat (span_length s). span_offset s - po + int i = int j"
      by blast
  qed
  then show ?thesis
    by (simp add: mark_span_def fold_mark_char_nth [OF assms])
qed

text \<open>
  Claim C3. The tables selected for a page are exactly the tables of the document
  whose first bounding region has the 1-based number of the page, in their order;
  further bounding regions do not count. A table whose first bounding region is on
  another page does not take part in the text of this page, whatever its spans are: the
  text is the same as for the document without that table. Marking with a span sets
  the entries of the character array of the page whose offsets lie in the span and
  leaves every other entry and the length of the array as they are, so the part of a
  span that lies outside the page is dropped.
\<close>

theorem tables_selected_by_first_region:
  assumes "tables r = Some ts"
    and "tables_on_page r page_num = Inr tops"
  shows "tops = filter (\<lambda>t. \<exists>b bs. bounding_regions t = b # bs \<and>
                           region_page_number b = int page_num + 1) ts \<and>
     (\<forall>t. t \<in> set tops \<longleftrightarrow>
        t \<in> set ts \<and>
        (\<exists>b bs. bounding_regions t = b # bs \<and> region_page_number b = int page_num + 1)) \<and>
     (\<forall>t\<in>set ts. \<forall>b bs.
        bounding_regions t = b # bs \<and> region_page_number b \<noteq> int page_num + 1 \<longrightarrow>
        t \<notin> set tops \<and>
        build_page_text (r\<lparr>tables := Some (removeAll t ts)\<rparr>) roles_start roles_end page_num pg
          = build_page_text r roles_start roles_end page_num pg) \<and>
     (\<forall>tid sp tc j. length tc = nat page_length \<and> j < nat page_length \<longrightarrow>
        length (mark_span page_offset page_length tid sp tc) = nat page_length \<and>
        mark_span page_offset page_length tid sp tc ! j
          = (if span_offset sp \<le> page_offset + int j \<and>
                page_offset + int j < span_offset sp + span_length sp
             then tid else tc ! j)) \<and>
     length (mark_tables page_offset page_length tops) = nat page_length"
proof -
  let ?P = "\<lambda>t. first_region_page t = Inr (int page_num + 1)"
  let ?Q = "\<lambda>t. \<exists>b bs. bounding_regions t = b # bs \<and> region_page_number b = int page_num + 1"
  have PQ: "?P = ?Q"
    by (simp add: first_region_page_eq fun_eq_iff)
  from assms have sel: "select_tables ts page_num = Inr tops"
    by (simp add: tables_on_page_def)
  from select_tables_Inr [OF sel] have
    tops: "tops = filter ?P ts" and tot: "\<forall>t\<in>set ts. \<exists>m. first_region_page t = Inr m"
    by simp_all
  have 1: "tops = filter ?Q ts"
    using tops by (simp only: PQ)
  have 2: "\<forall>t. t \<in> set tops \<longleftrightarrow> t \<in> set ts \<and> ?Q t"
    by (simp add: 1)
  have other: "t \<notin> set tops \<and>
          build_page_text (r\<lparr>tables := Some (removeAll t ts)\<rparr>) roles_start roles_end page_num pg
          = build_page_text r roles_start roles_end page_num pg"
    if "t \<in> set ts" and "bounding_regions t = b # bs \<and> region_page_number b \<noteq> int page_num + 1"
    for t b bs
  proof -
    from that(2) have nP: "\<not> ?P t"
      by (auto simp: first_region_page_eq)
    have "\<forall>u\<in>set (removeAll t ts). \<exists>m. first_region_page u = Inr m"
      using tot by simp
    from select_tables_total [OF this, of page_num]
    have "select_tables (removeAll t ts) page_num = Inr tops"
      by (simp add: filter_removeAll_other [of ?P, OF nP] tops)
    then have "tables_on_page (r\<lparr>tables := Some (removeAll t ts)\<rparr>) page_num = Inr tops"
      by (simp add: tables_on_page_def)
    then have "build_page_text (r\<lparr>tables := Some (removeAll t ts)\<rparr>) roles_start roles_end page_num pg
          = build_page_text r roles_start roles_end page_num pg"
      by (simp add: build_page_text_def assms(2) split: sum.splits)
    moreover from nP have "t \<notin> set tops"
      by (simp add: tops)
    ultimately show ?thesis by simp
  qed
  have 3: "\<forall>t\<in>set ts. \<forall>b bs.
        bounding_regions t = b # bs \<and> region_page_number b \<noteq> int page_num + 1 \<longrightarrow>
        t \<notin> set tops \<and>
        build_page_text (r\<lparr>tables := Some (removeAll t ts)\<rparr>) roles_start roles_end page_num pg
          = build_page_text r roles_start roles_end page_num pg"
    using other by blast
  have 4: "\<forall>tid sp tc j. length tc = nat page_length \<and> j < nat page_length \<longrightarrow>
        length (mark_span page_offset page_length tid sp tc) = nat page_length \<and>
        mark_span page_offset page_length tid sp tc ! j
          = (if span_offset sp \<le> page_offset + int j \<and>
                page_offset + int j < span_offset sp + span_length sp
             then tid else tc ! j)"
    by (simp add: length_mark_span mark_span_nth)
  from 1 2 3 4 length_mark_tables [of page_offset page_length tops]
  show ?thesis by blast
qed

theorem tables_selected_by_first_region_witness:
  "tables spill_result = Some [spill_table] \<and>
   bounding_regions spill_table = [\<lparr>region_page_number = 1\<rparr>, \<lparr>region_page_number = 2\<rparr>] \<and>
   table_spans spill_table = [mk_span 6 5, mk_span 12 7] \<and>
   tables_on_page spill_result 0 = Inr [spill_table] \<and>
   tables_on_page spill_result 1 = Inr [] \<and>
   mark_tables 0 11 [spill_table] = [- 1, - 1, - 1, - 1, - 1, - 1, 0, 0, 0, 0, 0] \<and>
   mark_span 0 11 0 (mk_span 12 7) (replicate 11 (- 1)) ! 10 = - 1 \<and>
   build_page_text (spill_result\<lparr>tables := Some (removeAll spill_table [spill_table])\<rparr>)
       Map.empty Map.empty 1 (mk_page 12 7)
     = build_page_text spill_result Map.empty Map.empty 1 (mk_page 12 7) \<and>
   reconstruct spill_result
     = Inr [\<lparr>page_number = 0, offset = 0, page_text = ''Hello '' @ abcd_html @ '' ''\<rparr>,
            \<lparr>page_number = 1, offset = 80, page_text = ''A B C D ''\<rparr>]"
proof -
  have a: "tables spill_result = Some [spill_table]"
    by (simp add: spill_result_def)
  have b0: "tables_on_page spill_result 0 = Inr [spill_table]"
    by code_simp
  have b1: "tables_on_page spill_result 1 = Inr []"
    by code_simp
  have c: "bounding_regions spill_table = [\<lparr>region_page_number = 1\<rparr>, \<lparr>region_page_number = 2\<rparr>]"
    by (simp add: spill_table_def)
  have d: "table_spans spill_table = [mk_span 6 5, mk_span 12 7]"
    by (simp add: spill_table_def)
  have m: "mark_tables 0 11 [spill_table] = [- 1, - 1, - 1, - 1, - 1, - 1, 0, 0, 0, 0, 0]"
    by code_simp
  have e: "reconstruct spill_result
     = Inr [\<lparr>page_number = 0, offset = 0, page_text = ''Hello '' @ abcd_html @ '' ''\<rparr>,
            \<lparr>page_number = 1, offset = 80, page_text = ''A B C D ''\<rparr>]"
    by code_simp
  have f: "spill_table \<in> set [spill_table]"
    by simp
  have g: "bounding_regions spill_table = \<lparr>region_page_number = 1\<rparr> # [\<lparr>region_page_number = 2\<rparr>] \<and>
           region_page_number \<lparr>region_page_number = 1\<rparr> \<noteq> int 1 + 1"
    by (simp add: c)
  have h: "length (replicate 11 (- 1 :: int)) = nat 11 \<and> (10 :: nat) < nat 11"
    by simp
  note th = tables_selected_by_first_region
    [OF a b1, of Map.empty Map.empty "mk_page 12 7" 11 0]
  from th f g
  have 1: "build_page_text (spill_result\<lparr>tables := Some (removeAll spill_table [spill_table])\<rparr>)
       Map.empty Map.empty 1 (mk_page 12 7)
     = build_page_text spill_result Map.empty Map.empty 1 (mk_page 12 7)"
    by blast
  from th h
  have "mark_span 0 11 0 (mk_span 12 7) (replicate 11 (- 1)) ! 10
          = (if span_offset (mk_span 12 7) \<le> 0 + int 10 \<and>
                0 + int 10 < span_offset (mk_span 12 7) + span_length (mk_span 12 7)
             then 0 else replicate 11 (- 1) ! 10)"
    by blast
  then have 2: "mark_span 0 11 0 (mk_span 12 7) (replicate 11 (- 1)) ! 10 = - 1"
    by (simp add: mk_span_def)
  from a b0 b1 c d m e 1 2 show ?thesis by blast
qed

subsection \<open>Failure of the call\<close>




















subsection \<open>Plain pages and pages covered by a table\<close>

lemma scan_chars_plain:
  "0 \<le> po \<Longrightarrow> nat po + k + n \<le> length doc \<Longrightarrow>
   scan_chars doc Map.empty Map.empty tops po (enumerate k (replicate n (- 1))) acc added
     = Inr (acc @ take n (drop (nat po + k) doc), added)"
proof (induction n arbitrary: k acc)
  case 0
  show ?case by simp
next
  case (Suc n)
  from Suc.prems have i: "str_index doc (po + int k) = Inr (doc ! (nat po + k))"
    by (simp add: str_index_def py_index_def nat_add_distrib)
  from Suc.prems have d: "drop (nat po + k) doc = doc ! (nat po + k) # drop (nat po + Suc k) doc"
    by (simp add: Cons_nth_drop_Suc)
  from Suc.prems have "nat po + Suc k + n \<le> length doc" by simp
  from Suc.IH [OF Suc.prems(1) this] show ?case
    by (simp add: i d open_tag_def close_tag_def)
qed

lemma fold_update_upt:
  "n \<le> length tc \<Longrightarrow> fold (\<lambda>i tc. tc[i := v]) [0..<n] tc = replicate n v @ drop n tc"
proof (induction n)
  case 0
  show ?case by simp
next
  case (Suc n)
  then have "n < length tc" by simp
  then have d: "drop n tc = tc ! n # drop (Suc n) tc"
    by (simp add: Cons_nth_drop_Suc)
  have "(replicate n v @ drop n tc)[n := v] = replicate n v @ v # drop (Suc n) tc"
    by (subst d) (simp add: list_update_append)
  also have "\<dots> = replicate (Suc n) v @ drop (Suc n) tc"
    by (simp add: replicate_app_Cons_same)
  finally show ?case using Suc by simp
qed

lemma mark_span_exact:
  assumes "span_offset s = po" and "span_length s = pl"
  shows "mark_span po pl tid s (replicate (nat pl) x) = replicate (nat pl) tid"
proof -
  have "fold (mark_char po pl tid s) [0..<nat pl] (replicate (nat pl) x)
      = fold (\<lambda>i tc. tc[i := tid]) [0..<nat pl] (replicate (nat pl) x)"
  proof (rule fold_cong)
    fix i assume "i \<in> set [0..<nat pl]"
    then have "int i < pl" by simp
    then show "mark_char po pl tid s i = (\<lambda>tc. tc[i := tid])"
      by (simp add: mark_char_def assms(1) fun_eq_iff)
  qed simp_all
  also have "\<dots> = replicate (nat pl) tid"
    by (simp add: fold_update_upt)
  finally show ?thesis
    by (simp add: mark_span_def assms(2))
qed

lemma mark_tables_covering:
  assumes "table_spans t = [s]" and "span_offset s = po" and "span_length s = pl"
  shows "mark_tables po pl [t] = replicate (nat pl) 0"
  using mark_span_exact [OF assms(2,3), of 0 "- 1"]
  by (simp add: mark_tables_def mark_table_def assms(1))

lemma scan_chars_all_added:
  "\<forall>x\<in>set xs. snd x \<in> added \<and> snd x \<noteq> - 1 \<Longrightarrow>
   scan_chars doc rs re tops po xs acc added = Inr (acc, added)"
proof (induction xs)
  case Nil
  show ?case by simp
next
  case (Cons x xs)
  obtain idx table_id where x: "x = (idx, table_id)" by (cases x)
  from Cons show ?case by (simp add: x)
qed

lemma scan_chars_covered:
  assumes "0 < n"
  shows "scan_chars doc rs re [t] po (enumerate 0 (replicate n 0)) [] {}
           = Inr (table_to_html t, {0})"
proof -
  from assms obtain m where n: "n = Suc m" by (cases n) simp_all
  have rest: "scan_chars doc rs re [t] po (enumerate (Suc 0) (replicate m 0)) (table_to_html t) {0}
                = Inr (table_to_html t, {0})"
    by (rule scan_chars_all_added) (auto simp: in_set_enumerate_eq)
  have "list_index [t] 0 = Inr t"
    by (simp add: list_index_def py_index_def)
  then show ?thesis
    by (simp add: n rest)
qed

lemma abcd_table_html:
  assumes "row_count t = 2" and "cells t = abcd_cells"
  shows "table_to_html t = abcd_html"
proof -
  have "map (\<lambda>i. sort_key column_index (filter (\<lambda>c. row_index c = int i) abcd_cells)) [0..<nat 2]
          = [[mk_cell 0 0 ''columnHeader'' ''A'', mk_cell 0 1 ''columnHeader'' ''B''],
             [mk_cell 1 0 ''content'' ''C'', mk_cell 1 1 ''content'' ''D'']]"
    by code_simp
  then have rows: "table_rows t
          = [[mk_cell 0 0 ''columnHeader'' ''A'', mk_cell 0 1 ''columnHeader'' ''B''],
             [mk_cell 1 0 ''content'' ''C'', mk_cell 1 1 ''content'' ''D'']]"
    by (simp only: table_rows_def assms)
  have "add_rows ''<table>''
          [[mk_cell 0 0 ''columnHeader'' ''A'', mk_cell 0 1 ''columnHeader'' ''B''],
           [mk_cell 1 0 ''content'' ''C'', mk_cell 1 1 ''content'' ''D'']] @ ''</table>''
          = abcd_html"
    by code_simp
  then show ?thesis
    by (simp only: table_to_html_def rows)
qed

text \<open>
  Claim C7. A result of two pages, the first the plain text \<open>Hello World\<close> at the
  offsets 0 to 10 without roles or tables, the second covered exactly by one table of
  two rows and two columns with the contents A, B, C, D and column headers in row 0,
  gives the page map of \<open>Hello World\<close> and a space at the offset 0, and the rendered
  table and a space at the offset 12.
\<close>

theorem hello_world_page_map:
  assumes "client (model_id use_layout) source_url = Inr r"
    and "content r = ''Hello World'' @ rest"
    and "pages r = [pg1, pg2]"
    and "list_index (page_spans pg1) 0 = Inr s1"
    and "span_offset s1 = 0" and "span_length s1 = 11"
    and "list_index (page_spans pg2) 0 = Inr s2"
    and "0 < span_length s2"
    and "paragraphs r = None"
    and "tables r = Some [t]"
    and "first_region_page t = Inr 2"
    and "table_spans t = [sp]"
    and "span_offset sp = span_offset s2" and "span_length sp = span_length s2"
    and "row_count t = 2" and "cells t = abcd_cells"
  shows "begin_analyze_document_from_url client format_exc source_url use_layout
           = Inr [\<lparr>page_number = 0, offset = 0, page_text = ''Hello World ''\<rparr>,
                  \<lparr>page_number = 1, offset = 12,
                   page_text = ''<table><tr><th>A</th><th>B</th></tr><tr><td>C</td><td>D</td></tr></table> ''\<rparr>]"
proof -
  have roles: "mark_roles r = Inr (Map.empty, Map.empty)"
    by (simp add: mark_roles_def assms(9))
  have t0: "tables_on_page r 0 = Inr []"
    by (simp add: tables_on_page_def assms(10,11))
  have t1: "tables_on_page r (Suc 0) = Inr [t]"
    by (simp add: tables_on_page_def assms(10,11))
  have m0: "mark_tables 0 11 [] = replicate 11 (- 1)"
    by (simp add: mark_tables_def)
  have "scan_chars (content r) Map.empty Map.empty [] 0 (enumerate 0 (replicate 11 (- 1))) [] {}
          = Inr ([] @ take 11 (drop (nat 0 + 0) (content r)), {})"
    by (rule scan_chars_plain) (simp_all add: assms(2))
  then have s0: "scan_chars (content r) Map.empty Map.empty [] 0 (enumerate 0 (replicate 11 (- 1))) [] {}
          = Inr (''Hello World'', {})"
    by (simp add: assms(2))
  have p0: "build_page_text r Map.empty Map.empty 0 pg1 = Inr ''Hello World ''"
    by (simp add: build_page_text_def t0 assms(4,5,6) m0 s0 Let_def)
  have m1: "mark_tables (span_offset s2) (span_length s2) [t] = replicate (nat (span_length s2)) 0"
    by (rule mark_tables_covering [OF assms(12,13,14)])
  have n: "0 < nat (span_length s2)"
    using assms(8) by simp
  have p1: "build_page_text r Map.empty Map.empty (Suc 0) pg2 = Inr (abcd_html @ '' '')"
    by (simp add: build_page_text_def t1 assms(7) m1 scan_chars_covered [OF n]
        abcd_table_html [OF assms(15,16)] Let_def)
  have "reconstruct r
          = Inr [\<lparr>page_number = 0, offset = 0, page_text = ''Hello World ''\<rparr>,
                 \<lparr>page_number = Suc 0, offset = 12, page_text = abcd_html @ '' ''\<rparr>]"
    by (simp add: reconstruct_def roles assms(3) p0 p1)
  then show ?thesis
    by (simp add: begin_analyze_document_from_url_def assms(1) abcd_html_def)
qed

theorem hello_world_page_map_witness:
  "content hello_result = ''Hello World'' @ '' A B C D'' \<and>
   pages hello_result = [mk_page 0 11, mk_page 12 7] \<and>
   tables hello_result = Some [hello_table] \<and>
   table_spans hello_table = [mk_span 12 7] \<and>
   begin_analyze_document_from_url (\<lambda>m u. Inr hello_result) (\<lambda>e. []) ''doc'' False
     = Inr [\<lparr>page_number = 0, offset = 0, page_text = ''Hello World ''\<rparr>,
            \<lparr>page_number = 1, offset = 12,
             page_text = ''<table><tr><th>A</th><th>B</th></tr><tr><td>C</td><td>D</td></tr></table> ''\<rparr>]"
proof -
  let ?client = "\<lambda>(m :: string) (u :: string). Inr hello_result :: exn + analysis_result"
  have h1: "?client (model_id False) ''doc'' = Inr hello_result"
    by simp
  have h2: "content hello_result = ''Hello World'' @ '' A B C D''"
    by (simp add: hello_result_def)
  have h3: "pages hello_result = [mk_page 0 11, mk_page 12 7]"
    by (simp add: hello_result_def)
  have h4: "list_index (page_spans (mk_page 0 11)) 0 = Inr (mk_span 0 11)"
    by code_simp
  have h5: "span_offset (mk_span 0 11) = 0" "span_length (mk_span 0 11) = 11"
    by (simp_all add: mk_span_def)
  have h7: "list_index (page_spans (mk_page 12 7)) 0 = Inr (mk_span 12 7)"
    by code_simp
  have h8: "0 < span_length (mk_span 12 7)"
    by (simp add: mk_span_def)
  have h9: "paragraphs hello_result = None"
    by (simp add: hello_result_def)
  have h10: "tables hello_result = Some [hello_table]"
    by (simp add: hello_result_def)
  have h11: "first_region_page hello_table = Inr 2"
    by code_simp
  have h12: "table_spans hello_table = [mk_span 12 7]"
    by (simp add: hello_table_def)
  have h13: "span_offset (mk_span 12 7) = span_offset (mk_span 12 7)"
    "span_length (mk_span 12 7) = span_length (mk_span 12 7)"
    by simp_all
  have h15: "row_count hello_table = 2" "cells hello_table = abcd_cells"
    by (simp_all add: hello_table_def)
  from hello_world_page_map [of ?client False "''doc''", OF h1 h2 h3 h4 h5 h7 h8 h9 h10 h11 h12 h13 h15]
    h2 h3 h10 h12
  show ?thesis by blast
qed

end
